theory Spec2Isabelle
  imports Complex_Main "HOL-Library.Word" "HOL-Library.Multiset"
begin

section \<open>Data model\<close>

text \<open>
  Modelled from the spec: the package \<open>types\<close> (the declarations of \<open>MessageLog\<close>,
  \<open>Metric\<close>, \<open>LogLineLeader\<close> and \<open>ErrImproperlyFormattedLogLine\<close>) is not among the
  sources; the record below follows section 3 of the specification and the field names
  used by \<open>buildMessageLogFromStrings\<close>. \<open>SeqNo\<close> is a \<open>uint64\<close>, \<open>NanoTime\<close> an
  \<open>int64\<close> (read with \<open>sint\<close>) and \<open>Seq\<close> a Go \<open>int\<close> of a 64-bit target.
\<close>

record MessageLog =
  HostID :: string
  SenderID :: string
  MessageID :: string
  SeqNo :: "64 word"
  NanoTime :: "64 word"
  Seq :: "64 word"

text \<open>The two error kinds of \<open>strconv.NumError\<close>.\<close>

datatype NumError = ErrSyntax | ErrRange

text \<open>
  The error values that the analysis package can hand to its caller: the sentinel of the
  package \<open>types\<close>, the two \<open>errors.New\<close> values of \<open>utils.go\<close>, a numeric-parse error
  of \<open>strconv\<close>, and a run-time panic on an index out of range.
\<close>

datatype error =
    ErrImproperlyFormattedLogLine
  | ErrNoMessageLogs
  | ErrCannotCalculateRMR
  | ErrStrconv NumError
  | PanicIndexOutOfRange

section \<open>The string functions of the Go library used by the parser\<close>

text \<open>\<open>strings.HasPrefix(s, prefix)\<close>.\<close>

fun HasPrefix :: "string \<Rightarrow> string \<Rightarrow> bool" where
  "HasPrefix s [] = True"
| "HasPrefix [] (p # ps) = False"
| "HasPrefix (c # cs) (p # ps) = (c = p \<and> HasPrefix cs ps)"

text \<open>\<open>strings.Contains(s, substr)\<close>: \<open>substr\<close> occurs at some offset of \<open>s\<close>.\<close>

fun Contains :: "string \<Rightarrow> string \<Rightarrow> bool" where
  "Contains [] substr = (substr = [])"
| "Contains (c # cs) substr = (HasPrefix (c # cs) substr \<or> Contains cs substr)"

text \<open>
  \<open>strings.ReplaceAll(s, old, new)\<close>: the non-overlapping occurrences of \<open>old\<close> are
  replaced from left to right; an empty \<open>old\<close> matches before every byte and at the end.
\<close>

function ReplaceAll :: "string \<Rightarrow> string \<Rightarrow> string \<Rightarrow> string" where
  "ReplaceAll s old new =
     (if old = [] then new @ concat (map (\<lambda>c. c # new) s)
      else if s = [] then []
      else if HasPrefix s old then new @ ReplaceAll (drop (length old) s) old new
      else hd s # ReplaceAll (tl s) old new)"
  by pat_completeness auto
termination
  by (relation "measure (\<lambda>(s, old, new). length s)") auto

declare ReplaceAll.simps [simp del]

text \<open>
  \<open>strings.Split(s, sep)\<close>: the substrings between the non-overlapping occurrences of
  \<open>sep\<close>, one more than there are occurrences; \<open>cur\<close> is the field read so far. With an
  empty separator Go cuts after every UTF-8 sequence, here after every byte.
\<close>

function splitFrom :: "string \<Rightarrow> string \<Rightarrow> string \<Rightarrow> string list" where
  "splitFrom cur s sep =
     (if s = [] then [cur]
      else if sep \<noteq> [] \<and> HasPrefix s sep then cur # splitFrom [] (drop (length sep) s) sep
      else splitFrom (cur @ [hd s]) (tl s) sep)"
  by pat_completeness auto
termination
  by (relation "measure (\<lambda>(cur, s, sep). length s)") auto

declare splitFrom.simps [simp del]

definition Split :: "string \<Rightarrow> string \<Rightarrow> string list" where
  "Split s sep = (if sep = [] then map (\<lambda>c. [c]) s else splitFrom [] s sep)"

section \<open>The numeric parsers of strconv, base 10\<close>

definition isDigit :: "char \<Rightarrow> bool" where
  "isDigit c = (48 \<le> (of_char c :: nat) \<and> (of_char c :: nat) \<le> 57)"

definition digitVal :: "char \<Rightarrow> nat" where
  "digitVal c = of_char c - 48"

text \<open>
  The digit loop of \<open>strconv.ParseUint(s, 10, bitSize)\<close>: a byte that is no digit is a
  syntax error, a value past \<open>2 ^ bitSize - 1\<close> a range error, whichever comes first
  from the left.
\<close>

fun parseUintLoop :: "nat \<Rightarrow> nat \<Rightarrow> string \<Rightarrow> NumError + nat" where
  "parseUintLoop bitSize n [] = Inr n"
| "parseUintLoop bitSize n (c # cs) =
     (if \<not> isDigit c then Inl ErrSyntax
      else if n \<ge> (2 ^ bitSize - 1) div 10 + 1 then Inl ErrRange
      else let n1 = n * 10 + digitVal c in
        if n1 > 2 ^ bitSize - 1 then Inl ErrRange
        else parseUintLoop bitSize n1 cs)"

definition ParseUint :: "string \<Rightarrow> nat \<Rightarrow> NumError + nat" where
  "ParseUint s bitSize = (if s = [] then Inl ErrSyntax else parseUintLoop bitSize 0 s)"

text \<open>
  \<open>strconv.ParseInt(s, 10, bitSize)\<close>: an optional sign, then the unsigned parser; a range
  error of the unsigned parser stands for its largest value.
\<close>

definition ParseInt :: "string \<Rightarrow> nat \<Rightarrow> NumError + int" where
  "ParseInt s bitSize =
     (if s = [] then Inl ErrSyntax
      else
        let neg = (hd s = CHR ''-'');
            s' = (if hd s = CHR ''+'' \<or> hd s = CHR ''-'' then tl s else s)
        in case ParseUint s' bitSize of
             Inl ErrSyntax \<Rightarrow> Inl ErrSyntax
           | r \<Rightarrow>
               let un = (case r of Inr n \<Rightarrow> n | Inl _ \<Rightarrow> 2 ^ bitSize - 1);
                   cutoff = 2 ^ (bitSize - 1)
               in if \<not> neg \<and> un \<ge> cutoff then Inl ErrRange
                  else if neg \<and> un > cutoff then Inl ErrRange
                  else Inr (if neg then - int un else int un))"

text \<open>\<open>strconv.IntSize\<close> and \<open>strconv.Atoi\<close> on a 64-bit target.\<close>

definition IntSize :: nat where
  "IntSize = 64"

definition Atoi :: "string \<Rightarrow> NumError + int" where
  "Atoi s = ParseInt s IntSize"

section \<open>The log line parser\<close>

text \<open>
  \<open>buildMessageLogFromStrings\<close>: the three numeric fields are parsed in order and each
  failure is answered with the one sentinel error. The caller has checked that there are
  six fields; with fewer the index expressions panic.
\<close>

definition buildMessageLogFromStrings :: "string list \<Rightarrow> error + MessageLog" where
  "buildMessageLogFromStrings data =
     (if length data < 6 then Inl PanicIndexOutOfRange
      else case ParseUint (data ! 3) 64 of
        Inl _ \<Rightarrow> Inl ErrImproperlyFormattedLogLine
      | Inr seqNo \<Rightarrow>
          (case ParseInt (data ! 4) 64 of
             Inl _ \<Rightarrow> Inl ErrImproperlyFormattedLogLine
           | Inr unixNano \<Rightarrow>
               (case Atoi (data ! 5) of
                  Inl _ \<Rightarrow> Inl ErrImproperlyFormattedLogLine
                | Inr seq \<Rightarrow>
                    Inr \<lparr>HostID = data ! 0, SenderID = data ! 1, MessageID = data ! 2,
                         SeqNo = of_nat seqNo, NanoTime = of_int unixNano,
                         Seq = of_int seq\<rparr>)))"

text \<open>
  \<open>parseLogLine\<close>, with the constant \<open>types.LogLineLeader\<close> as the parameter
  \<open>leader\<close>. The result \<open>Inr None\<close> is Go's \<open>(nil, nil)\<close>: the line is not relevant.
\<close>

definition parseLogLine :: "string \<Rightarrow> string \<Rightarrow> error + MessageLog option" where
  "parseLogLine leader logLine =
     (if \<not> Contains logLine leader then Inr None
      else
        let line = ReplaceAll logLine leader [];
            data = Split line '',''
        in if length data \<noteq> 6 then Inl ErrImproperlyFormattedLogLine
           else case buildMessageLogFromStrings data of
                  Inl e \<Rightarrow> Inl e
                | Inr msgLog \<Rightarrow> Inr (Some msgLog))"

section \<open>Go maps\<close>

text \<open>
  A Go map is kept as the list of its entries, one per key. \<open>gomap_store\<close> is the
  assignment \<open>m[k] = v\<close>, \<open>gomap_index\<close> the lookup \<open>m[k]\<close>, whose answer for a missing
  key is the zero value of the value type, and \<open>length\<close> is \<open>len(m)\<close>.
\<close>

type_synonym ('k, 'v) gomap = "('k \<times> 'v) list"

fun gomap_store :: "('k, 'v) gomap \<Rightarrow> 'k \<Rightarrow> 'v \<Rightarrow> ('k, 'v) gomap" where
  "gomap_store [] k v = [(k, v)]"
| "gomap_store ((k', v') # m) k v =
     (if k' = k then (k, v) # m else (k', v') # gomap_store m k v)"

definition gomap_index :: "('k, 'v list) gomap \<Rightarrow> 'k \<Rightarrow> 'v list" where
  "gomap_index m k = (case map_of m k of None \<Rightarrow> [] | Some v \<Rightarrow> v)"

text \<open>
  Go does not fix the order in which a \<open>range\<close> statement visits the entries of a map.
  Every function that ranges over a map takes the order as a parameter: a function that
  rearranges the entries. \<open>range_order\<close> says that it neither drops nor repeats an entry.
\<close>

definition range_order :: "(('k, 'v) gomap \<Rightarrow> ('k, 'v) gomap) \<Rightarrow> bool" where
  "range_order rng = (\<forall>m. mset (rng m) = mset m)"

section \<open>Floating-point numbers\<close>

text \<open>
  The IEEE 754 binary formats behind Go's \<open>float32\<close> and \<open>float64\<close>. \<open>Finite s m e\<close> is
  \<open>(-1)\<^sup>s * m * 2\<^sup>e\<close>; a result of an operation has its significand below
  \<open>2 ^ prec\<close> and, unless it is subnormal or zero, at least \<open>2 ^ (prec - 1)\<close>.
\<close>

datatype float = Finite bool nat int | Infinity bool | NaN

record format =
  prec :: nat
  emax :: int

definition emin :: "format \<Rightarrow> int" where
  "emin f = 1 - emax f"

definition binary32 :: format where
  "binary32 = \<lparr>prec = 24, emax = 127\<rparr>"

definition binary64 :: format where
  "binary64 = \<lparr>prec = 53, emax = 1023\<rparr>"

text \<open>The number of bits of \<open>n\<close> (\<open>bits.Len\<close>).\<close>

fun bitLen :: "nat \<Rightarrow> nat" where
  "bitLen n = (if n = 0 then 0 else Suc (bitLen (n div 2)))"

declare bitLen.simps [simp del]

text \<open>
  The float of format \<open>f\<close> nearest to \<open>(-1)\<^sup>s * (a / b) * 2\<^sup>e\<close>, for \<open>0 < b\<close>, a tie
  going to the even significand: \<open>x\<close> is the exponent of the leading bit, held at
  \<open>emin\<close> for a subnormal result, \<open>u\<close> the exponent of the last place, and \<open>q'\<close> the
  rounded significand.
\<close>

definition roundRatio :: "format \<Rightarrow> bool \<Rightarrow> nat \<Rightarrow> nat \<Rightarrow> int \<Rightarrow> float" where
  "roundRatio f s a b e =
     (if a = 0 then Finite s 0 0
      else
        let l = int (bitLen a) - int (bitLen b);
            lead = (if (if 0 \<le> l then b * 2 ^ nat l \<le> a else b \<le> a * 2 ^ nat (- l))
                    then l else l - 1);
            x = max (lead + e) (emin f);
            u = x - (int (prec f) - 1);
            t = e - u;
            num = (if 0 \<le> t then a * 2 ^ nat t else a);
            den = (if 0 \<le> t then b else b * 2 ^ nat (- t));
            q = num div den;
            r = num mod den;
            q' = (if 2 * r < den then q
                  else if den < 2 * r then q + 1
                  else if even q then q else q + 1)
        in if q' = 0 then Finite s 0 0
           else if q' = 2 ^ prec f then
             (if emax f < x + 1 then Infinity s else Finite s (2 ^ (prec f - 1)) (u + 1))
           else if emax f < x then Infinity s
           else Finite s q' u)"

text \<open>The conversions \<open>float32(i)\<close> and \<open>float64(i)\<close> of an integer.\<close>

definition fl_of_int :: "format \<Rightarrow> int \<Rightarrow> float" where
  "fl_of_int f i = roundRatio f (i < 0) (nat \<bar>i\<bar>) 1 0"

text \<open>The quotient \<open>x / y\<close>.\<close>

fun fl_div :: "format \<Rightarrow> float \<Rightarrow> float \<Rightarrow> float" where
  "fl_div f NaN y = NaN"
| "fl_div f x NaN = NaN"
| "fl_div f (Infinity s1) (Infinity s2) = NaN"
| "fl_div f (Infinity s1) (Finite s2 m2 e2) = Infinity (s1 \<noteq> s2)"
| "fl_div f (Finite s1 m1 e1) (Infinity s2) = Finite (s1 \<noteq> s2) 0 0"
| "fl_div f (Finite s1 m1 e1) (Finite s2 m2 e2) =
     (if m2 = 0 then (if m1 = 0 then NaN else Infinity (s1 \<noteq> s2))
      else roundRatio f (s1 \<noteq> s2) m1 m2 (e1 - e2))"

text \<open>\<open>scaled s m d\<close> is the integer \<open>(-1)\<^sup>s * m * 2\<^sup>d\<close>, for \<open>0 \<le> d\<close>.\<close>

definition scaled :: "bool \<Rightarrow> nat \<Rightarrow> int \<Rightarrow> int" where
  "scaled s m d = (if s then - int m else int m) * 2 ^ nat d"

text \<open>The sum \<open>x + y\<close>, the negation and the difference \<open>x - y\<close>.\<close>

fun fl_add :: "format \<Rightarrow> float \<Rightarrow> float \<Rightarrow> float" where
  "fl_add f NaN y = NaN"
| "fl_add f x NaN = NaN"
| "fl_add f (Infinity s1) (Infinity s2) = (if s1 = s2 then Infinity s1 else NaN)"
| "fl_add f (Infinity s1) (Finite s2 m2 e2) = Infinity s1"
| "fl_add f (Finite s1 m1 e1) (Infinity s2) = Infinity s2"
| "fl_add f (Finite s1 m1 e1) (Finite s2 m2 e2) =
     (let e = min e1 e2;
          i = scaled s1 m1 (e1 - e) + scaled s2 m2 (e2 - e)
      in if i = 0 then Finite (s1 \<and> s2) 0 0
         else roundRatio f (i < 0) (nat \<bar>i\<bar>) 1 e)"

fun fl_neg :: "float \<Rightarrow> float" where
  "fl_neg NaN = NaN"
| "fl_neg (Infinity s) = Infinity (\<not> s)"
| "fl_neg (Finite s m e) = Finite (\<not> s) m e"

definition fl_sub :: "format \<Rightarrow> float \<Rightarrow> float \<Rightarrow> float" where
  "fl_sub f x y = fl_add f x (fl_neg y)"

text \<open>The comparisons \<open>x < y\<close> and \<open>x == y\<close>; the two zeros are equal, a NaN is not.\<close>

fun fl_less :: "float \<Rightarrow> float \<Rightarrow> bool" where
  "fl_less NaN y = False"
| "fl_less x NaN = False"
| "fl_less (Infinity s1) (Infinity s2) = (s1 \<and> \<not> s2)"
| "fl_less (Infinity s1) (Finite s2 m2 e2) = s1"
| "fl_less (Finite s1 m1 e1) (Infinity s2) = (\<not> s2)"
| "fl_less (Finite s1 m1 e1) (Finite s2 m2 e2) =
     (scaled s1 m1 (e1 - min e1 e2) < scaled s2 m2 (e2 - min e1 e2))"

fun fl_eq :: "float \<Rightarrow> float \<Rightarrow> bool" where
  "fl_eq NaN y = False"
| "fl_eq x NaN = False"
| "fl_eq (Infinity s1) (Infinity s2) = (s1 = s2)"
| "fl_eq (Infinity s1) (Finite s2 m2 e2) = False"
| "fl_eq (Finite s1 m1 e1) (Infinity s2) = False"
| "fl_eq (Finite s1 m1 e1) (Finite s2 m2 e2) =
     (scaled s1 m1 (e1 - min e1 e2) = scaled s2 m2 (e2 - min e1 e2))"

fun Signbit :: "float \<Rightarrow> bool" where
  "Signbit (Finite s m e) = s"
| "Signbit (Infinity s) = s"
| "Signbit NaN = False"

text \<open>\<open>math.Max(x, y)\<close>, with the special cases of the Go library in their order.\<close>

definition math_Max :: "float \<Rightarrow> float \<Rightarrow> float" where
  "math_Max x y =
     (if x = Infinity False \<or> y = Infinity False then Infinity False
      else if x = NaN \<or> y = NaN then NaN
      else if fl_eq x (Finite False 0 0) \<and> fl_eq x y then (if Signbit x then y else x)
      else if fl_less y x then x
      else y)"

text \<open>
  The conversion \<open>uint(x)\<close> of a float on a 64-bit target: the fraction is dropped. Go
  leaves the result to the implementation when the value is not one of \<open>uint\<close>; the
  model answers 0 there.
\<close>

fun uint_of_float :: "float \<Rightarrow> nat" where
  "uint_of_float (Finite s m e) =
     (let v = (if 0 \<le> e then m * 2 ^ nat e else m div 2 ^ nat (- e))
      in if s \<or> 2 ^ 64 \<le> v then 0 else v)"
| "uint_of_float (Infinity s) = 0"
| "uint_of_float NaN = 0"

text \<open>The exact value of a finite float.\<close>

fun valof :: "float \<Rightarrow> rat" where
  "valof (Finite s m e) = (if s then - 1 else 1) * of_nat m * (if 0 \<le> e then 2 ^ nat e else 1 / 2 ^ nat (- e))"
| "valof (Infinity s) = 0"
| "valof NaN = 0"

section \<open>Grouping and sorting\<close>

text \<open>
  \<open>groupMessageLogsByID\<close>: the first loop appends every record to the entry of its
  \<open>MessageID\<close> (\<open>appendToGroup\<close> is its body, \<open>messageLogMapOf\<close> the map it leaves);
  the second ranges over the map, in the order \<open>rng\<close>, and collects the groups.
\<close>

definition appendToGroup ::
  "(string, MessageLog list) gomap \<Rightarrow> MessageLog \<Rightarrow> (string, MessageLog list) gomap" where
  "appendToGroup messageLogMap messageLog =
     gomap_store messageLogMap (MessageID messageLog)
       (gomap_index messageLogMap (MessageID messageLog) @ [messageLog])"

definition messageLogMapOf :: "MessageLog list \<Rightarrow> (string, MessageLog list) gomap" where
  "messageLogMapOf messageLogs = foldl appendToGroup [] messageLogs"

definition groupMessageLogsByID ::
  "((string, MessageLog list) gomap \<Rightarrow> (string, MessageLog list) gomap) \<Rightarrow>
   MessageLog list \<Rightarrow> MessageLog list list" where
  "groupMessageLogsByID rng messageLogs =
     foldl (\<lambda>messageLogGroups (k, messageLogGroup). messageLogGroups @ [messageLogGroup])
           [] (rng (messageLogMapOf messageLogs))"

text \<open>The closure \<open>unixNanoTimestamp\<close> of \<open>sortMessageLogs\<close>: a comparison of \<open>int64\<close>s.\<close>

definition unixNanoTimestamp :: "MessageLog \<Rightarrow> MessageLog \<Rightarrow> bool" where
  "unixNanoTimestamp m1 m2 = (sint (NanoTime m1) < sint (NanoTime m2))"

text \<open>
  Modelled from the spec: the package \<open>sorter\<close> is not among the sources. Section 4.2 of
  the specification has each group sorted ascending by the comparison it is given, records
  with equal keys keeping their order; \<open>sorter_By_Sort lt\<close> stands for
  \<open>sorter.By(lt).Sort\<close> and inserts every record before the first one that is not less
  than it.
\<close>

fun sorter_insert :: "('a \<Rightarrow> 'a \<Rightarrow> bool) \<Rightarrow> 'a \<Rightarrow> 'a list \<Rightarrow> 'a list" where
  "sorter_insert lt x [] = [x]"
| "sorter_insert lt x (y # ys) =
     (if lt y x then y # sorter_insert lt x ys else x # y # ys)"

definition sorter_By_Sort :: "('a \<Rightarrow> 'a \<Rightarrow> bool) \<Rightarrow> 'a list \<Rightarrow> 'a list" where
  "sorter_By_Sort lt xs = foldr (sorter_insert lt) xs []"

definition sortMessageLogs :: "MessageLog list list \<Rightarrow> MessageLog list list" where
  "sortMessageLogs messageLogsGroups =
     map (sorter_By_Sort unixNanoTimestamp) messageLogsGroups"

section \<open>Metrics\<close>

text \<open>
  Modelled from the spec: \<open>types.Metric\<close>, from section 3 of the specification and the
  assignments of \<open>buildMetricsFromSortedMessageLogs\<close>. Lengths and counts (\<open>len\<close>, a
  \<open>uint\<close> made from one) are natural numbers: a Go slice or map has fewer than
  \<open>2 ^ 63\<close> elements.
\<close>

record Metric =
  TotalNanoTime :: "64 word"
  RelativeMessageRedundancy :: float
  LastDeliveryHop :: nat

text \<open>
  \<open>calcTotalNanoTime\<close>: the difference of two \<open>int64\<close>s wraps around, and the conversion
  to \<open>uint64\<close> keeps the bits. Both index expressions panic on an empty slice.
\<close>

definition calcTotalNanoTime :: "MessageLog list \<Rightarrow> error + 64 word" where
  "calcTotalNanoTime sortedMessageLogs =
     (if sortedMessageLogs = [] then Inl PanicIndexOutOfRange
      else Inr (NanoTime (sortedMessageLogs ! (length sortedMessageLogs - 1))
                - NanoTime (sortedMessageLogs ! 0)))"

text \<open>\<open>countUniqueHosts\<close>: \<open>addHosts\<close> is the body of its loop.\<close>

definition addHosts :: "(string, unit) gomap \<Rightarrow> MessageLog \<Rightarrow> (string, unit) gomap" where
  "addHosts m msg = gomap_store (gomap_store m (HostID msg) ()) (SenderID msg) ()"

definition countUniqueHosts :: "MessageLog list \<Rightarrow> nat" where
  "countUniqueHosts sortedMessageLogs = length (foldl addHosts [] sortedMessageLogs)"

text \<open>The difference of two \<open>uint\<close>s on a 64-bit target, which wraps around.\<close>

definition uint_sub :: "nat \<Rightarrow> nat \<Rightarrow> nat" where
  "uint_sub a b = (a + 2 ^ 64 - b) mod 2 ^ 64"

text \<open>
  \<open>calcRMR\<close>: the only guard is \<open>uniqueHosts == 0\<close>; the constant \<open>1.0\<close> is a
  \<open>float32\<close> here.
\<close>

definition calcRMR :: "MessageLog list \<Rightarrow> error + float" where
  "calcRMR sortedMessageLogs =
     (let uniqueHosts = countUniqueHosts sortedMessageLogs
      in if uniqueHosts = 0 then Inl ErrCannotCalculateRMR
         else Inr (fl_sub binary32
                     (fl_div binary32
                        (fl_of_int binary32 (int (length sortedMessageLogs)))
                        (fl_of_int binary32 (int (uint_sub uniqueHosts 1))))
                     (fl_of_int binary32 1)))"

section \<open>Forwarding paths\<close>

type_synonym edges = "(string, (string, MessageLog) gomap) gomap"

definition prependString :: "string \<Rightarrow> string list \<Rightarrow> string list" where
  "prependString s arr = [s] @ arr"

text \<open>
  \<open>buildPathsForSenderID\<close>. The Go function calls itself with nothing that bounds the
  nesting; \<open>depth\<close> is the number of nested calls that are allowed, and the result
  \<open>None\<close> says that the calls nest deeper. The function returns when some depth gives
  \<open>Some\<close>, and recurses for ever when every depth gives \<open>None\<close>. \<open>rng\<close> is the order
  in which the recipients of a sender are visited.
\<close>

fun buildPathsForSenderID ::
  "((string, MessageLog) gomap \<Rightarrow> (string, MessageLog) gomap) \<Rightarrow> nat \<Rightarrow> string \<Rightarrow> edges \<Rightarrow>
   string list list option" where
  "buildPathsForSenderID rng 0 senderID m = None"
| "buildPathsForSenderID rng (Suc depth) senderID m =
     foldl (\<lambda>ret (recipient, msg).
              case ret of
                None \<Rightarrow> None
              | Some ret' \<Rightarrow>
                  (case buildPathsForSenderID rng depth recipient m of
                     None \<Rightarrow> None
                   | Some paths \<Rightarrow>
                       Some (foldl (\<lambda>ret'' path. ret'' @ [prependString senderID path])
                                   ret' paths)))
           (Some []) (rng (gomap_index m senderID))"

text \<open>
  The body of the loop of \<open>buildPathsForSenderID\<close> at one entry \<open>p\<close> of the map of the
  sender, for the lemmas about that loop.
\<close>

definition visit ::
  "((string, MessageLog) gomap \<Rightarrow> (string, MessageLog) gomap) \<Rightarrow> nat \<Rightarrow> string \<Rightarrow> edges \<Rightarrow>
   string list list option \<Rightarrow> string \<times> MessageLog \<Rightarrow> string list list option" where
  "visit rng depth senderID m ret p =
     (case p of (recipient, msg) \<Rightarrow>
        (case ret of
           None \<Rightarrow> None
         | Some ret' \<Rightarrow>
             (case buildPathsForSenderID rng depth recipient m of
                None \<Rightarrow> None
              | Some paths \<Rightarrow>
                  Some (foldl (\<lambda>ret'' path. ret'' @ [prependString senderID path])
                              ret' paths))))"

text \<open>
  \<open>calcLastDeliveryHop\<close>: the map from a sender to its recipients is filled from the
  records (\<open>addEdge\<close> is the body of that loop: it makes the inner map of a new sender
  and stores the record under its recipient), the paths are built from the sender of the
  first record, and the longest one is found with \<open>math.Max\<close> on \<open>float64\<close>s. The index
  expression panics on an empty slice.
\<close>

definition addEdge :: "edges \<Rightarrow> MessageLog \<Rightarrow> edges" where
  "addEdge m msg =
     (let m' = (if map_of m (SenderID msg) = None then gomap_store m (SenderID msg) [] else m)
      in gomap_store m' (SenderID msg)
           (gomap_store (gomap_index m' (SenderID msg)) (HostID msg) msg))"

definition buildEdges :: "MessageLog list \<Rightarrow> edges" where
  "buildEdges sortedMessageLogs = foldl addEdge [] sortedMessageLogs"

definition calcLastDeliveryHop ::
  "((string, MessageLog) gomap \<Rightarrow> (string, MessageLog) gomap) \<Rightarrow> nat \<Rightarrow> MessageLog list \<Rightarrow>
   (error + nat) option" where
  "calcLastDeliveryHop rng depth sortedMessageLogs =
     (let m = buildEdges sortedMessageLogs
      in if sortedMessageLogs = [] then Some (Inl PanicIndexOutOfRange)
         else
           let firstGossiperID = SenderID (sortedMessageLogs ! 0)
           in case buildPathsForSenderID rng depth firstGossiperID m of
                None \<Rightarrow> None
              | Some paths \<Rightarrow>
                  let lastDeliveryHop =
                        foldl (\<lambda>h path. math_Max h (fl_of_int binary64 (int (length path))))
                              (Finite False 0 0) paths
                  in Some (Inr (uint_of_float lastDeliveryHop)))"

section \<open>The pipeline\<close>

definition buildMetricsFromSortedMessageLogs ::
  "((string, MessageLog) gomap \<Rightarrow> (string, MessageLog) gomap) \<Rightarrow> nat \<Rightarrow> MessageLog list \<Rightarrow>
   (error + Metric) option" where
  "buildMetricsFromSortedMessageLogs rng depth sortedMessageLogs =
     (if length sortedMessageLogs = 0 then Some (Inl ErrNoMessageLogs)
      else case calcTotalNanoTime sortedMessageLogs of
        Inl e \<Rightarrow> Some (Inl e)
      | Inr totalNanoTime \<Rightarrow>
          (case calcRMR sortedMessageLogs of
             Inl err \<Rightarrow> Some (Inl err)
           | Inr rmr \<Rightarrow>
               (case calcLastDeliveryHop rng depth sortedMessageLogs of
                  None \<Rightarrow> None
                | Some (Inl e) \<Rightarrow> Some (Inl e)
                | Some (Inr hop) \<Rightarrow>
                    Some (Inr \<lparr>TotalNanoTime = totalNanoTime,
                               RelativeMessageRedundancy = rmr,
                               LastDeliveryHop = hop\<rparr>))))"

text \<open>
  \<open>buildMetricsFromSortedMessageLogsGroups\<close>: the groups in their order; the first error
  ends the loop, \<open>metrics\<close> is the slice built so far.
\<close>

fun metricsLoop ::
  "((string, MessageLog) gomap \<Rightarrow> (string, MessageLog) gomap) \<Rightarrow> nat \<Rightarrow> Metric list \<Rightarrow>
   MessageLog list list \<Rightarrow> (error + Metric list) option" where
  "metricsLoop rng depth metrics [] = Some (Inr metrics)"
| "metricsLoop rng depth metrics (sortedMessageLogs # groups) =
     (case buildMetricsFromSortedMessageLogs rng depth sortedMessageLogs of
        None \<Rightarrow> None
      | Some (Inl err) \<Rightarrow> Some (Inl err)
      | Some (Inr metric) \<Rightarrow> metricsLoop rng depth (metrics @ [metric]) groups)"

definition buildMetricsFromSortedMessageLogsGroups ::
  "((string, MessageLog) gomap \<Rightarrow> (string, MessageLog) gomap) \<Rightarrow> nat \<Rightarrow>
   MessageLog list list \<Rightarrow> (error + Metric list) option" where
  "buildMetricsFromSortedMessageLogsGroups rng depth messageLogsGroups =
     metricsLoop rng depth [] messageLogsGroups"

text \<open>
  \<open>buildMetricsFromMessageLogs\<close>: \<open>rngG\<close> is the order in which the groups are read off
  the map of \<open>groupMessageLogsByID\<close>, \<open>rngE\<close> the order of the recipients in
  \<open>buildPathsForSenderID\<close>.
\<close>

definition buildMetricsFromMessageLogs ::
  "((string, MessageLog list) gomap \<Rightarrow> (string, MessageLog list) gomap) \<Rightarrow>
   ((string, MessageLog) gomap \<Rightarrow> (string, MessageLog) gomap) \<Rightarrow> nat \<Rightarrow>
   MessageLog list \<Rightarrow> (error + Metric list) option" where
  "buildMetricsFromMessageLogs rngG rngE depth messageLogs =
     buildMetricsFromSortedMessageLogsGroups rngE depth
       (sortMessageLogs (groupMessageLogsByID rngG messageLogs))"

text \<open>
  The metric that \<open>buildMetricsFromSortedMessageLogs\<close> returns for a group, when it returns
  one.
\<close>

definition metricOf ::
  "((string, MessageLog) gomap \<Rightarrow> (string, MessageLog) gomap) \<Rightarrow> nat \<Rightarrow> MessageLog list \<Rightarrow> Metric" where
  "metricOf rng d g = projr (the (buildMetricsFromSortedMessageLogs rng d g))"

text \<open>
  The result of the pipeline with the order of the metrics forgotten: the metrics as a
  multiset.
\<close>

definition unordered :: "(error + Metric list) option \<Rightarrow> (error + Metric multiset) option" where
  "unordered res = map_option (map_sum id mset) res"

section \<open>The forwarding relation\<close>

text \<open>
  The relation from a sender to its recipients that an edge map holds, and the one that
  the records of a group make: a record is an edge from its \<open>SenderID\<close> to its
  \<open>HostID\<close>.
\<close>

definition edge_rel :: "edges \<Rightarrow> (string \<times> string) set" where
  "edge_rel m = {(senderID, recipient). recipient \<in> fst ` set (gomap_index m senderID)}"

definition forwarding :: "MessageLog list \<Rightarrow> (string \<times> string) set" where
  "forwarding sortedMessageLogs = (\<lambda>msg. (SenderID msg, HostID msg)) ` set sortedMessageLogs"

section \<open>Example inputs\<close>

definition mkLog :: "string \<Rightarrow> string \<Rightarrow> string \<Rightarrow> 64 word \<Rightarrow> MessageLog" where
  "mkLog host sender mid t =
     \<lparr>HostID = host, SenderID = sender, MessageID = mid, SeqNo = 0, NanoTime = t, Seq = 0\<rparr>"

text \<open>The three records of the end-to-end scenario of the specification.\<close>

definition ex_group :: "MessageLog list" where
  "ex_group =
     [mkLog ''h2'' ''h1'' ''m1'' 1000, mkLog ''h3'' ''h2'' ''m1'' 2000,
      mkLog ''h1'' ''h1'' ''m1'' 500]"

text \<open>The forwarding chain \<open>A \<rightarrow> B \<rightarrow> C \<rightarrow> D\<close>, in the order of its timestamps.\<close>

definition ex_chain :: "MessageLog list" where
  "ex_chain =
     [mkLog ''B'' ''A'' ''m1'' 10, mkLog ''C'' ''B'' ''m1'' 20, mkLog ''D'' ''C'' ''m1'' 30]"

text \<open>Two hosts that forward a message to each other.\<close>

definition ex_cycle :: "MessageLog list" where
  "ex_cycle = [mkLog ''B'' ''A'' ''m1'' 10, mkLog ''A'' ''B'' ''m1'' 20]"

text \<open>A group whose one record has a host as its own sender.\<close>

definition ex_self :: "MessageLog list" where
  "ex_self = [mkLog ''h1'' ''h1'' ''m1'' 500]"

text \<open>Four records among three hosts.\<close>

definition ex_four :: "MessageLog list" where
  "ex_four =
     [mkLog ''h2'' ''h1'' ''m1'' 10, mkLog ''h3'' ''h1'' ''m1'' 20,
      mkLog ''h3'' ''h2'' ''m1'' 30, mkLog ''h2'' ''h3'' ''m1'' 40]"

text \<open>Records of two messages, interleaved.\<close>

definition ex_logs :: "MessageLog list" where
  "ex_logs =
     [mkLog ''h2'' ''h1'' ''m1'' 1000, mkLog ''h5'' ''h4'' ''m2'' 300,
      mkLog ''h3'' ''h1'' ''m1'' 1005]"

text \<open>A metric with no redundancy and no hop.\<close>

definition ex_metric :: "64 word \<Rightarrow> Metric" where
  "ex_metric t =
     \<lparr>TotalNanoTime = t, RelativeMessageRedundancy = Finite False 0 0, LastDeliveryHop = 0\<rparr>"

section \<open>The parser: irrelevant and malformed lines\<close>

lemmas parser_eval =
  parseLogLine_def Split_def splitFrom.simps ReplaceAll.simps buildMessageLogFromStrings_def
  ParseUint_def ParseInt_def Atoi_def IntSize_def isDigit_def digitVal_def

lemma buildMessageLogFromStrings_error:
  "length data = 6 \<Longrightarrow> buildMessageLogFromStrings data = Inl e \<Longrightarrow>
   e = ErrImproperlyFormattedLogLine"
  by (auto simp: buildMessageLogFromStrings_def split: sum.splits)

lemma buildMessageLogFromStrings_fails_iff:
  "length data = 6 \<Longrightarrow>
   (buildMessageLogFromStrings data = Inl ErrImproperlyFormattedLogLine) =
   (isl (ParseUint (data ! 3) 64) \<or> isl (ParseInt (data ! 4) 64) \<or> isl (Atoi (data ! 5)))"
  by (auto simp: buildMessageLogFromStrings_def split: sum.splits)

text \<open>
  Claim C10. A line that does not contain the marker \<open>leader\<close> is answered with the
  irrelevant result, the absent record \<open>Inr None\<close>, whatever else it contains; so the
  parser returns no error on it.
\<close>

theorem parseLogLine_irrelevant:
  "\<not> Contains logLine leader \<Longrightarrow> parseLogLine leader logLine = Inr None"
  by (simp add: parseLogLine_def)

theorem parseLogLine_irrelevant_witness:
  "\<not> Contains ''h2,h1,m1,0,1000'' ''Marker: '' \<and>
   parseLogLine ''Marker: '' ''h2,h1,m1,0,1000'' = Inr None"
  using parseLogLine_irrelevant [of "''h2,h1,m1,0,1000''" "''Marker: ''"]
  by simp

text \<open>
  Claim C9. On a relevant line (one that contains the marker) the parser fails with
  \<open>ErrImproperlyFormattedLogLine\<close> exactly when the number of comma-separated fields,
  after the marker is removed, is not 6, or the fourth field does not parse as an unsigned
  64-bit number, or the fifth not as a signed 64-bit number, or the sixth not as an
  \<open>int\<close>; and whatever error it returns is that one: the error of the numeric parser is
  never returned.
\<close>

theorem parseLogLine_malformed:
  "Contains logLine leader \<Longrightarrow>
   (let data = Split (ReplaceAll logLine leader []) '',''
    in (parseLogLine leader logLine = Inl ErrImproperlyFormattedLogLine) =
       (length data \<noteq> 6 \<or> isl (ParseUint (data ! 3) 64) \<or> isl (ParseInt (data ! 4) 64)
        \<or> isl (Atoi (data ! 5)))) \<and>
   (\<forall>e. parseLogLine leader logLine = Inl e \<longrightarrow> e = ErrImproperlyFormattedLogLine)"
proof -
  assume rel: "Contains logLine leader"
  define data where "data = Split (ReplaceAll logLine leader []) '',''"
  show ?thesis
  proof (cases "length data = 6")
    case True
    have unfold: "parseLogLine leader logLine =
        (case buildMessageLogFromStrings data of Inl e \<Rightarrow> Inl e | Inr msgLog \<Rightarrow> Inr (Some msgLog))"
      using rel True by (simp add: parseLogLine_def data_def)
    have fails: "(parseLogLine leader logLine = Inl ErrImproperlyFormattedLogLine) =
        (buildMessageLogFromStrings data = Inl ErrImproperlyFormattedLogLine)"
      by (simp add: unfold split: sum.splits)
    have only: "\<forall>e. parseLogLine leader logLine = Inl e \<longrightarrow> e = ErrImproperlyFormattedLogLine"
      using buildMessageLogFromStrings_error [OF True]
      by (auto simp: unfold split: sum.splits)
    from fails only buildMessageLogFromStrings_fails_iff [OF True] True
    show ?thesis by (simp add: data_def [symmetric] Let_def)
  next
    case False
    then have "parseLogLine leader logLine = Inl ErrImproperlyFormattedLogLine"
      using rel by (simp add: parseLogLine_def data_def)
    with False show ?thesis by (simp add: data_def [symmetric] Let_def)
  qed
qed

theorem parseLogLine_malformed_witness:
  "Contains ''Marker: h2,h1,m1,0,12x,7'' ''Marker: '' \<and>
   length (Split (ReplaceAll ''Marker: h2,h1,m1,0,12x,7'' ''Marker: '' []) '','') = 6 \<and>
   ParseInt ''12x'' 64 = Inl ErrSyntax \<and>
   parseLogLine ''Marker: '' ''Marker: h2,h1,m1,0,12x,7'' = Inl ErrImproperlyFormattedLogLine"
  using parseLogLine_malformed [of "''Marker: h2,h1,m1,0,12x,7''" "''Marker: ''"]
  by (simp add: parser_eval)

section \<open>Sorted groups and the total time\<close>

lemma mset_sorter_insert: "mset (sorter_insert lt x xs) = add_mset x (mset xs)"
  by (induction xs) auto

lemma mset_sorter_By_Sort: "mset (sorter_By_Sort lt xs) = mset xs"
  unfolding sorter_By_Sort_def by (induction xs) (auto simp: mset_sorter_insert)

lemma set_sorter_insert: "set (sorter_insert lt x xs) = insert x (set xs)"
  by (induction xs) auto

lemma sorted_sorter_insert:
  "sorted_wrt (\<lambda>a b. sint (NanoTime a) \<le> sint (NanoTime b)) xs \<Longrightarrow>
   sorted_wrt (\<lambda>a b. sint (NanoTime a) \<le> sint (NanoTime b)) (sorter_insert unixNanoTimestamp x xs)"
  by (induction xs) (auto simp: set_sorter_insert unixNanoTimestamp_def)

lemma sorted_sorter_By_Sort:
  "sorted_wrt (\<lambda>a b. sint (NanoTime a) \<le> sint (NanoTime b)) (sorter_By_Sort unixNanoTimestamp xs)"
  unfolding sorter_By_Sort_def by (induction xs) (auto simp: sorted_sorter_insert)

lemma sorter_By_Sort_Nil_iff: "(sorter_By_Sort lt xs = []) = (xs = [])"
  using mset_sorter_By_Sort [of lt xs] by (metis mset_zero_iff)

lemma uint_sub_sint:
  fixes a b :: "64 word"
  assumes "sint a \<le> sint b"
  shows "uint (b - a) = sint b - sint a"
proof -
  have "uint (word_of_int (sint b - sint a) :: 64 word) = (sint b - sint a) mod 2 ^ 64"
    by (simp only: uint_word_of_int len_bit0 len_num1 mult_numeral_1_right numeral_times_numeral semiring_norm)
  moreover have "(word_of_int (sint b - sint a) :: 64 word) = b - a" by simp
  moreover have "sint b < 2 ^ 63" "- (2 ^ 63) \<le> sint a"
    using sint_lt [of b] sint_ge [of a] by simp_all
  ultimately show ?thesis using assms by simp
qed

lemma sorted_wrt_hd_last:
  "sorted_wrt P xs \<Longrightarrow> xs \<noteq> [] \<Longrightarrow> (\<And>x. P x x) \<Longrightarrow> P (hd xs) (last xs)"
  by (cases xs) (auto)


text \<open>
  Claim C6. For every non-empty group, the group that \<open>sortMessageLogs\<close> leaves in its
  place holds the same records, its \<open>NanoTime\<close> values (read as signed numbers) never
  decrease, and \<open>calcTotalNanoTime\<close> returns on it a \<open>uint64\<close> whose value is exactly
  the \<open>NanoTime\<close> of the last record minus that of the first one, a difference that is not
  negative.
\<close>

theorem sortMessageLogs_total_time:
  "i < length messageLogsGroups \<Longrightarrow> messageLogsGroups ! i \<noteq> [] \<Longrightarrow>
   (let s = sortMessageLogs messageLogsGroups ! i
    in mset s = mset (messageLogsGroups ! i) \<and>
       sorted_wrt (\<lambda>a b. sint (NanoTime a) \<le> sint (NanoTime b)) s \<and>
       0 \<le> sint (NanoTime (last s)) - sint (NanoTime (hd s)) \<and>
       (\<exists>t. calcTotalNanoTime s = Inr t \<and>
            int (unat t) = sint (NanoTime (last s)) - sint (NanoTime (hd s))))"
proof -
  assume i: "i < length messageLogsGroups" and ne: "messageLogsGroups ! i \<noteq> []"
  define s where "s = sorter_By_Sort unixNanoTimestamp (messageLogsGroups ! i)"
  have s_eq: "sortMessageLogs messageLogsGroups ! i = s"
    using i by (simp add: sortMessageLogs_def s_def)
  have perm: "mset s = mset (messageLogsGroups ! i)"
    by (simp add: s_def mset_sorter_By_Sort)
  have sorted: "sorted_wrt (\<lambda>a b. sint (NanoTime a) \<le> sint (NanoTime b)) s"
    by (simp add: s_def sorted_sorter_By_Sort)
  have s_ne: "s \<noteq> []"
    using ne by (simp add: s_def sorter_By_Sort_Nil_iff)
  have le: "sint (NanoTime (hd s)) \<le> sint (NanoTime (last s))"
    using sorted_wrt_hd_last [OF sorted s_ne] by simp
  have total: "calcTotalNanoTime s = Inr (NanoTime (last s) - NanoTime (hd s))"
    using s_ne by (simp add: calcTotalNanoTime_def last_conv_nth hd_conv_nth)
  have diff: "int (unat (NanoTime (last s) - NanoTime (hd s))) =
      sint (NanoTime (last s)) - sint (NanoTime (hd s))"
    using uint_sub_sint [OF le] by simp
  have nonneg: "0 \<le> sint (NanoTime (last s)) - sint (NanoTime (hd s))"
    using le by simp
  show ?thesis
    unfolding Let_def s_eq
    using perm sorted nonneg total diff by blast
qed

theorem sortMessageLogs_total_time_witness:
  "0 < length [ex_group] \<and> [ex_group] ! 0 \<noteq> [] \<and>
   map NanoTime (sortMessageLogs [ex_group] ! 0) = [500, 1000, 2000] \<and>
   calcTotalNanoTime (sortMessageLogs [ex_group] ! 0) = Inr 1500"
  using sortMessageLogs_total_time [of 0 "[ex_group]"]
  by (simp add: ex_group_def mkLog_def sortMessageLogs_def sorter_By_Sort_def unixNanoTimestamp_def
      calcTotalNanoTime_def)


section \<open>Grouping is a partition\<close>

lemma map_of_gomap_store: "map_of (gomap_store m k v) = (map_of m)(k \<mapsto> v)"
  by (induction m) (auto simp: fun_eq_iff)

lemma keys_gomap_store:
  "map fst (gomap_store m k v) = (if k \<in> fst ` set m then map fst m else map fst m @ [k])"
  by (induction m) force+

lemma distinct_gomap_store:
  "distinct (map fst m) \<Longrightarrow> distinct (map fst (gomap_store m k v))"
  by (simp add: keys_gomap_store)

lemma collect_groups: "foldl (\<lambda>acc (k, g). acc @ [g]) acc ys = acc @ map snd ys"
  by (induction ys arbitrary: acc) auto

lemma groupMessageLogsByID_eq:
  "groupMessageLogsByID rng messageLogs = map snd (rng (messageLogMapOf messageLogs))"
  by (simp add: groupMessageLogsByID_def collect_groups)

lemma messageLogMapOf_snoc:
  "messageLogMapOf (xs @ [x]) = appendToGroup (messageLogMapOf xs) x"
  by (simp add: messageLogMapOf_def)

lemma distinct_messageLogMapOf: "distinct (map fst (messageLogMapOf xs))"
  by (induction xs rule: rev_induct)
    (simp_all add: messageLogMapOf_snoc appendToGroup_def distinct_gomap_store, simp add: messageLogMapOf_def)

lemma map_of_messageLogMapOf:
  "map_of (messageLogMapOf xs) k =
     (if filter (\<lambda>r. MessageID r = k) xs = [] then None
      else Some (filter (\<lambda>r. MessageID r = k) xs))"
proof (induction xs arbitrary: k rule: rev_induct)
  case Nil
  show ?case by (simp add: messageLogMapOf_def)
next
  case (snoc x xs)
  then show ?case
    by (simp add: messageLogMapOf_snoc appendToGroup_def map_of_gomap_store gomap_index_def)
qed

lemma sum_gomap_store:
  "(\<Sum>p\<leftarrow>gomap_store m k (gomap_index m k @ [x]). mset (snd p)) =
   add_mset x (\<Sum>p\<leftarrow>m. mset (snd p))"
  by (induction m) (auto simp: gomap_index_def)

lemma sum_messageLogMapOf: "(\<Sum>p\<leftarrow>messageLogMapOf xs. mset (snd p)) = mset xs"
  by (induction xs rule: rev_induct)
    (simp_all add: messageLogMapOf_snoc appendToGroup_def sum_gomap_store, simp add: messageLogMapOf_def)

lemma range_order_set: "range_order rng \<Longrightarrow> set (rng m) = set m"
  unfolding range_order_def by (metis set_mset_mset)

lemma range_order_distinct_keys:
  "range_order rng \<Longrightarrow> distinct (map fst m) \<Longrightarrow> distinct (map fst (rng m))"
proof -
  assume r: "range_order rng" and d: "distinct (map fst m)"
  have "mset (map fst (rng m)) = mset (map fst m)"
    using r by (simp add: range_order_def)
  then show ?thesis using d by (metis mset_eq_imp_distinct_iff)
qed

lemma range_order_sum:
  "range_order rng \<Longrightarrow> (\<Sum>p\<leftarrow>rng m. mset (snd p)) = (\<Sum>p\<leftarrow>m. mset (snd p))"
proof -
  assume r: "range_order rng"
  have "mset (map (\<lambda>p. mset (snd p)) (rng m)) = mset (map (\<lambda>p. mset (snd p)) m)"
    using r by (simp add: range_order_def)
  then show ?thesis by (metis sum_mset_sum_list)
qed

lemma entry_messageLogMapOf:
  assumes "(k, g) \<in> set (messageLogMapOf xs)"
  shows "g \<noteq> [] \<and> g = filter (\<lambda>r. MessageID r = k) xs"
proof -
  have "map_of (messageLogMapOf xs) k = Some g"
    using assms distinct_messageLogMapOf by (simp add: map_of_eq_Some_iff)
  then show ?thesis
    by (simp add: map_of_messageLogMapOf split: if_splits)
qed

text \<open>
  Claim C7. Whatever the order in which the map is ranged over, the groups of
  \<open>groupMessageLogsByID\<close> partition the records: no group is empty, the records of a
  group share one \<open>MessageID\<close>, two groups never have the same \<open>MessageID\<close>, and the
  groups together hold every record of the input as often as the input does.
\<close>

theorem groupMessageLogsByID_partition:
  "range_order rng \<Longrightarrow>
   (let groups = groupMessageLogsByID rng messageLogs
    in (\<forall>g \<in> set groups. g \<noteq> [] \<and> (\<forall>r \<in> set g. MessageID r = MessageID (hd g))) \<and>
       distinct (map (\<lambda>g. MessageID (hd g)) groups) \<and>
       mset (concat groups) = mset messageLogs)"
proof -
  assume r: "range_order rng"
  define m where "m = messageLogMapOf messageLogs"
  have groups: "groupMessageLogsByID rng messageLogs = map snd (rng m)"
    by (simp add: groupMessageLogsByID_eq m_def)
  have entry: "g \<noteq> [] \<and> g = filter (\<lambda>r. MessageID r = k) messageLogs"
    if "(k, g) \<in> set (rng m)" for k g
  proof -
    from that have "(k, g) \<in> set (messageLogMapOf messageLogs)"
      using range_order_set [OF r, of m] by (simp add: m_def)
    then show ?thesis by (rule entry_messageLogMapOf)
  qed
  have key: "MessageID (hd g) = k \<and> (\<forall>r \<in> set g. MessageID r = k)"
    if "(k, g) \<in> set (rng m)" for k g
  proof -
    from entry [OF that] have ne: "g \<noteq> []" and g: "g = filter (\<lambda>r. MessageID r = k) messageLogs"
      by blast+
    have all: "\<forall>r \<in> set g. MessageID r = k" by (subst g) simp
    moreover have "hd g \<in> set g" using ne by simp
    ultimately show ?thesis by blast
  qed
  have one: "\<forall>g \<in> set (map snd (rng m)). g \<noteq> [] \<and> (\<forall>r \<in> set g. MessageID r = MessageID (hd g))"
    using entry key by fastforce
  have ids: "map (\<lambda>g. MessageID (hd g)) (map snd (rng m)) = map fst (rng m)"
    using key by (auto simp: comp_def)
  have "distinct (map fst (rng m))"
    using range_order_distinct_keys [OF r] distinct_messageLogMapOf by (simp add: m_def)
  then have two: "distinct (map (\<lambda>g. MessageID (hd g)) (map snd (rng m)))"
    by (simp only: ids)
  have "mset (concat (map snd (rng m))) = (\<Sum>p\<leftarrow>rng m. mset (snd p))"
    by (simp add: mset_concat comp_def)
  then have three: "mset (concat (map snd (rng m))) = mset messageLogs"
    using range_order_sum [OF r, of m] sum_messageLogMapOf by (simp add: m_def)
  from one two three show ?thesis
    unfolding Let_def groups by blast
qed


theorem groupMessageLogsByID_partition_witness:
  "range_order (rev :: (string, MessageLog list) gomap \<Rightarrow> (string, MessageLog list) gomap) \<and>
   groupMessageLogsByID rev ex_logs =
     [[mkLog ''h5'' ''h4'' ''m2'' 300],
      [mkLog ''h2'' ''h1'' ''m1'' 1000, mkLog ''h3'' ''h1'' ''m1'' 1005]] \<and>
   mset (concat (groupMessageLogsByID rev ex_logs)) = mset ex_logs"
  using groupMessageLogsByID_partition [of rev ex_logs]
  by (simp add: range_order_def groupMessageLogsByID_def messageLogMapOf_def appendToGroup_def
      gomap_index_def ex_logs_def mkLog_def)

section \<open>Forwarding paths: results, termination and divergence\<close>

lemma prepend_fold:
  "foldl (\<lambda>ret'' path. ret'' @ [prependString s path]) ret paths =
   ret @ map (prependString s) paths"
  by (induction paths arbitrary: ret) auto

lemma buildPaths_Suc_visit:
  "buildPathsForSenderID rng (Suc depth) senderID m =
   foldl (visit rng depth senderID m) (Some []) (rng (gomap_index m senderID))"
  by (simp add: visit_def [abs_def])

lemma visit_None: "foldl (visit rng depth senderID m) None ys = None"
  by (induction ys) (auto simp: visit_def)

lemma visit_all_empty:
  "\<forall>p \<in> set ys. buildPathsForSenderID rng depth (fst p) m = Some [] \<Longrightarrow>
   foldl (visit rng depth senderID m) (Some ret) ys = Some ret"
  by (induction ys) (auto simp: visit_def)

lemma visit_some_None:
  "\<exists>p \<in> set ys. buildPathsForSenderID rng depth (fst p) m = None \<Longrightarrow>
   foldl (visit rng depth senderID m) ret ys = None"
proof (induction ys arbitrary: ret)
  case Nil
  then show ?case by simp
next
  case (Cons y ys)
  show ?case
  proof (cases "buildPathsForSenderID rng depth (fst y) m = None")
    case True
    then have "visit rng depth senderID m ret y = None"
      by (cases y; cases ret) (simp_all add: visit_def)
    then show ?thesis by (simp add: visit_None)
  next
    case False
    with Cons.prems have "\<exists>p \<in> set ys. buildPathsForSenderID rng depth (fst p) m = None"
      by auto
    then show ?thesis using Cons.IH by simp
  qed
qed

lemma buildPaths_empty:
  "buildPathsForSenderID rng depth senderID m = Some paths \<Longrightarrow> paths = []"
proof (induction depth arbitrary: senderID paths)
  case 0
  then show ?case by simp
next
  case (Suc depth)
  let ?ys = "rng (gomap_index m senderID)"
  show ?case
  proof (cases "\<exists>p \<in> set ?ys. buildPathsForSenderID rng depth (fst p) m = None")
    case True
    then have "buildPathsForSenderID rng (Suc depth) senderID m = None"
      by (simp only: buildPaths_Suc_visit visit_some_None)
    with Suc.prems show ?thesis by simp
  next
    case False
    then have "\<forall>p \<in> set ?ys. buildPathsForSenderID rng depth (fst p) m = Some []"
      using Suc.IH by (metis not_Some_eq)
    then have "buildPathsForSenderID rng (Suc depth) senderID m = Some []"
      by (simp only: buildPaths_Suc_visit visit_all_empty)
    with Suc.prems show ?thesis by simp
  qed
qed

lemma buildPaths_Suc_iff:
  "(buildPathsForSenderID rng (Suc depth) senderID m = Some []) =
   (\<forall>p \<in> set (rng (gomap_index m senderID)). buildPathsForSenderID rng depth (fst p) m = Some [])"
proof
  assume all: "\<forall>p \<in> set (rng (gomap_index m senderID)). buildPathsForSenderID rng depth (fst p) m = Some []"
  then show "buildPathsForSenderID rng (Suc depth) senderID m = Some []"
    by (simp only: buildPaths_Suc_visit visit_all_empty)
next
  assume ret: "buildPathsForSenderID rng (Suc depth) senderID m = Some []"
  show "\<forall>p \<in> set (rng (gomap_index m senderID)). buildPathsForSenderID rng depth (fst p) m = Some []"
  proof (rule ccontr)
    assume "\<not> ?thesis"
    then have "\<exists>p \<in> set (rng (gomap_index m senderID)). buildPathsForSenderID rng depth (fst p) m = None"
      using buildPaths_empty by (metis not_Some_eq)
    then have "buildPathsForSenderID rng (Suc depth) senderID m = None"
      by (simp only: buildPaths_Suc_visit visit_some_None)
    with ret show False by simp
  qed
qed

lemma buildPaths_None_iff:
  "(buildPathsForSenderID rng depth senderID m = None) =
   (buildPathsForSenderID rng depth senderID m \<noteq> Some [])"
  using buildPaths_empty by (metis not_Some_eq option.distinct(1))

lemma buildPaths_mono_Suc:
  "buildPathsForSenderID rng depth senderID m = Some [] \<Longrightarrow>
   buildPathsForSenderID rng (Suc depth) senderID m = Some []"
proof (induction depth arbitrary: senderID)
  case 0
  then show ?case by simp
next
  case (Suc depth)
  then show ?case by (simp only: buildPaths_Suc_iff) blast
qed

lemma buildPaths_mono_add:
  "buildPathsForSenderID rng depth senderID m = Some [] \<Longrightarrow>
   buildPathsForSenderID rng (depth + k) senderID m = Some []"
  by (induction k) (simp_all only: add_0_right add_Suc_right buildPaths_mono_Suc)

lemma buildPaths_mono:
  "buildPathsForSenderID rng depth senderID m = Some [] \<Longrightarrow> depth \<le> depth' \<Longrightarrow>
   buildPathsForSenderID rng depth' senderID m = Some []"
  using buildPaths_mono_add [of rng depth senderID m "depth' - depth"] by simp


lemma edge_rel_iff:
  "range_order rng \<Longrightarrow>
   ((a, b) \<in> edge_rel m) = (\<exists>p \<in> set (rng (gomap_index m a)). fst p = b)"
  by (auto simp: edge_rel_def range_order_set)

lemma finite_edge_rel: "finite (edge_rel m)"
proof -
  have "edge_rel m \<subseteq> fst ` set m \<times> (\<Union>p \<in> set m. fst ` set (snd p))"
  proof
    fix e assume e: "e \<in> edge_rel m"
    obtain a b where ab: "e = (a, b)" by (cases e)
    with e have b: "b \<in> fst ` set (gomap_index m a)" by (simp add: edge_rel_def)
    then have "\<exists>inner. map_of m a = Some inner \<and> b \<in> fst ` set inner"
      by (cases "map_of m a") (simp_all add: gomap_index_def)
    then obtain inner where inner: "map_of m a = Some inner" "b \<in> fst ` set inner"
      by blast
    then have "(a, inner) \<in> set m" by (simp add: map_of_SomeD)
    with inner ab show "e \<in> fst ` set m \<times> (\<Union>p \<in> set m. fst ` set (snd p))"
      by force
  qed
  then show ?thesis by (rule finite_subset) simp
qed

lemma common_depth:
  "\<forall>p \<in> set ys. \<exists>d. buildPathsForSenderID rng d (fst p) m = Some [] \<Longrightarrow>
   \<exists>D. \<forall>p \<in> set ys. buildPathsForSenderID rng D (fst p) m = Some []"
proof (induction ys)
  case Nil
  then show ?case by simp
next
  case (Cons y ys)
  then obtain D where D: "\<forall>p \<in> set ys. buildPathsForSenderID rng D (fst p) m = Some []"
    by auto
  from Cons.prems obtain d where d: "buildPathsForSenderID rng d (fst y) m = Some []"
    by auto
  have "\<forall>p \<in> set (y # ys). buildPathsForSenderID rng (max d D) (fst p) m = Some []"
    using D d by (auto intro: buildPaths_mono)
  then show ?case by blast
qed

lemma buildPaths_returns:
  assumes r: "range_order rng"
    and nocycle: "\<forall>n. (s, n) \<in> (edge_rel m)\<^sup>* \<longrightarrow> (n, n) \<notin> (edge_rel m)\<^sup>+"
  shows "\<exists>d. buildPathsForSenderID rng d s m = Some []"
proof -
  define R where "R = {(a, b). (a, b) \<in> edge_rel m \<and> (s, a) \<in> (edge_rel m)\<^sup>*}"
  have sub: "R \<subseteq> edge_rel m" by (auto simp: R_def)
  have fin: "finite R" using sub finite_edge_rel by (rule finite_subset)
  have acyc: "acyclic R"
  proof (rule acyclicI, rule allI, rule notI)
    fix x assume x: "(x, x) \<in> R\<^sup>+"
    then obtain z where "(x, z) \<in> R" by (meson tranclD)
    then have "(s, x) \<in> (edge_rel m)\<^sup>*" by (simp add: R_def)
    moreover have "(x, x) \<in> (edge_rel m)\<^sup>+" using x sub by (meson trancl_mono)
    ultimately show False using nocycle by blast
  qed
  have wf: "wf (R\<inverse>)" using fin acyc by (rule finite_acyclic_wf_converse)
  have "(s, a) \<in> (edge_rel m)\<^sup>* \<longrightarrow> (\<exists>d. buildPathsForSenderID rng d a m = Some [])" for a
  proof (induction a rule: wf_induct_rule [OF wf])
    case (1 a)
    show ?case
    proof
      assume reach: "(s, a) \<in> (edge_rel m)\<^sup>*"
      have "\<forall>p \<in> set (rng (gomap_index m a)). \<exists>d. buildPathsForSenderID rng d (fst p) m = Some []"
      proof
        fix p assume p: "p \<in> set (rng (gomap_index m a))"
        then have e: "(a, fst p) \<in> edge_rel m" using edge_rel_iff [OF r] by blast
        with reach have "(fst p, a) \<in> R\<inverse>" by (simp add: R_def)
        moreover from reach e have "(s, fst p) \<in> (edge_rel m)\<^sup>*" by simp
        ultimately show "\<exists>d. buildPathsForSenderID rng d (fst p) m = Some []"
          using 1 by blast
      qed
      then obtain D where
        "\<forall>p \<in> set (rng (gomap_index m a)). buildPathsForSenderID rng D (fst p) m = Some []"
        using common_depth by blast
      then have "buildPathsForSenderID rng (Suc D) a m = Some []"
        by (simp only: buildPaths_Suc_iff)
      then show "\<exists>d. buildPathsForSenderID rng d a m = Some []" by blast
    qed
  qed
  then show ?thesis by blast
qed

lemma buildPaths_diverges:
  assumes r: "range_order rng"
  shows "(s, n) \<in> (edge_rel m)\<^sup>* \<Longrightarrow> (n, n) \<in> (edge_rel m)\<^sup>+ \<Longrightarrow>
         buildPathsForSenderID rng d s m = None"
proof (induction d arbitrary: s)
  case 0
  show ?case by simp
next
  case (Suc d)
  have "(s, n) \<in> (edge_rel m)\<^sup>+"
    using Suc.prems by (metis rtranclD)
  then obtain z where z: "(s, z) \<in> edge_rel m" "(z, n) \<in> (edge_rel m)\<^sup>*"
    by (meson tranclD)
  from z(1) obtain p where p: "p \<in> set (rng (gomap_index m s))" "fst p = z"
    using edge_rel_iff [OF r] by blast
  have "buildPathsForSenderID rng d z m = None"
    using Suc.IH z(2) Suc.prems(2) by blast
  with p have "\<exists>p \<in> set (rng (gomap_index m s)). buildPathsForSenderID rng d (fst p) m = None"
    by blast
  then show ?case by (simp only: buildPaths_Suc_visit visit_some_None)
qed


lemma key_set_gomap_store: "fst ` set (gomap_store m k v) = insert k (fst ` set m)"
proof -
  have "set (map fst (gomap_store m k v)) = insert k (set (map fst m))"
    by (simp only: keys_gomap_store) auto
  then show ?thesis by simp
qed

lemma gomap_index_addEdge:
  "gomap_index (addEdge m x) s =
     (if s = SenderID x then gomap_store (gomap_index m s) (HostID x) x else gomap_index m s)"
  by (cases "map_of m (SenderID x)")
    (simp_all add: addEdge_def gomap_index_def map_of_gomap_store)

lemma buildEdges_snoc: "buildEdges (xs @ [x]) = addEdge (buildEdges xs) x"
  by (simp add: buildEdges_def)

lemma recipients_buildEdges:
  "fst ` set (gomap_index (buildEdges xs) s) = {HostID r | r. r \<in> set xs \<and> SenderID r = s}"
proof (induction xs arbitrary: s rule: rev_induct)
  case Nil
  show ?case by (simp add: buildEdges_def gomap_index_def)
next
  case (snoc x xs)
  have "fst ` set (gomap_index (buildEdges (xs @ [x])) s) =
      (if s = SenderID x then insert (HostID x) (fst ` set (gomap_index (buildEdges xs) s))
       else fst ` set (gomap_index (buildEdges xs) s))"
    by (simp add: buildEdges_snoc gomap_index_addEdge key_set_gomap_store)
  also have "\<dots> =
      (if s = SenderID x then insert (HostID x) {HostID r | r. r \<in> set xs \<and> SenderID r = s}
       else {HostID r | r. r \<in> set xs \<and> SenderID r = s})"
    by (simp only: snoc)
  also have "\<dots> = {HostID r | r. r \<in> set (xs @ [x]) \<and> SenderID r = s}"
    by auto
  finally show ?case .
qed

lemma edge_rel_buildEdges: "edge_rel (buildEdges xs) = forwarding xs"
  by (auto simp: edge_rel_def forwarding_def recipients_buildEdges)

lemma calcLastDeliveryHop_result:
  "sortedMessageLogs \<noteq> [] \<Longrightarrow>
   calcLastDeliveryHop rng depth sortedMessageLogs =
     (if buildPathsForSenderID rng depth (SenderID (sortedMessageLogs ! 0))
           (buildEdges sortedMessageLogs) = None
      then None else Some (Inr 0))"
proof (cases "buildPathsForSenderID rng depth (SenderID (sortedMessageLogs ! 0))
           (buildEdges sortedMessageLogs)")
  case None
  assume "sortedMessageLogs \<noteq> []"
  with None show ?thesis by (simp add: calcLastDeliveryHop_def)
next
  case (Some paths)
  assume ne: "sortedMessageLogs \<noteq> []"
  from Some have "paths = []" by (rule buildPaths_empty)
  with Some ne show ?thesis by (simp add: calcLastDeliveryHop_def)
qed

lemma acyclic_no_cycle:
  "acyclic r \<Longrightarrow> \<forall>n. (s, n) \<in> r\<^sup>* \<longrightarrow> (n, n) \<notin> r\<^sup>+"
  by (simp add: acyclic_def)

lemma acyclic_by_rank:
  fixes f :: "'a \<Rightarrow> nat"
  assumes "\<And>a b. (a, b) \<in> r \<Longrightarrow> f a < f b"
  shows "acyclic r"
proof -
  have "r \<subseteq> measure f" using assms by auto
  moreover have "acyclic (measure f)" by (simp add: wf_acyclic)
  ultimately show ?thesis by (rule acyclic_subset [rotated])
qed

text \<open>
  Claim C2. Whatever \<open>buildPathsForSenderID\<close> returns is the empty list of paths. When
  the relation of the edge map is acyclic it does return, from every start node: every
  depth from some depth on gives \<open>Some []\<close>. And for a non-empty group whose forwarding
  relation is acyclic, \<open>calcLastDeliveryHop\<close> returns 0.
\<close>

theorem acyclic_no_paths:
  "range_order rng \<Longrightarrow>
   (\<forall>d paths. buildPathsForSenderID rng d senderID m = Some paths \<longrightarrow> paths = []) \<and>
   (acyclic (edge_rel m) \<longrightarrow>
      (\<exists>d. \<forall>d' \<ge> d. buildPathsForSenderID rng d' senderID m = Some [])) \<and>
   (sortedMessageLogs \<noteq> [] \<and> acyclic (forwarding sortedMessageLogs) \<longrightarrow>
      (\<exists>d. \<forall>d' \<ge> d. calcLastDeliveryHop rng d' sortedMessageLogs = Some (Inr 0)))"
proof -
  assume r: "range_order rng"
  have one: "\<forall>d paths. buildPathsForSenderID rng d senderID m = Some paths \<longrightarrow> paths = []"
    using buildPaths_empty by blast
  have later: "\<exists>d. \<forall>d' \<ge> d. buildPathsForSenderID rng d' s e = Some []"
    if "acyclic (edge_rel e)" for s e
  proof -
    from that obtain d where "buildPathsForSenderID rng d s e = Some []"
      using buildPaths_returns [OF r acyclic_no_cycle] by blast
    then have "\<forall>d' \<ge> d. buildPathsForSenderID rng d' s e = Some []"
      using buildPaths_mono by blast
    then show ?thesis by blast
  qed
  have two: "acyclic (edge_rel m) \<longrightarrow>
      (\<exists>d. \<forall>d' \<ge> d. buildPathsForSenderID rng d' senderID m = Some [])"
    using later by blast
  have three: "\<exists>d. \<forall>d' \<ge> d. calcLastDeliveryHop rng d' sortedMessageLogs = Some (Inr 0)"
    if ne: "sortedMessageLogs \<noteq> []" and ac: "acyclic (forwarding sortedMessageLogs)"
  proof -
    from ac have "acyclic (edge_rel (buildEdges sortedMessageLogs))"
      by (simp only: edge_rel_buildEdges)
    then obtain d where "\<forall>d' \<ge> d. buildPathsForSenderID rng d'
        (SenderID (sortedMessageLogs ! 0)) (buildEdges sortedMessageLogs) = Some []"
      using later by blast
    then have "\<forall>d' \<ge> d. calcLastDeliveryHop rng d' sortedMessageLogs = Some (Inr 0)"
      by (simp add: calcLastDeliveryHop_result [OF ne])
    then show ?thesis by blast
  qed
  from one two three show ?thesis by blast
qed

lemma range_order_rev: "range_order rev"
  by (simp add: range_order_def)

lemma forwarding_ex_chain:
  "forwarding ex_chain = {(''A'', ''B''), (''B'', ''C''), (''C'', ''D'')}"
  by (simp add: forwarding_def ex_chain_def mkLog_def)

lemma acyclic_ex_chain: "acyclic (forwarding ex_chain)"
  by (rule acyclic_by_rank [where f = "\<lambda>s. of_char (hd s)"]) (auto simp: forwarding_ex_chain)

lemmas paths_eval =
  calcLastDeliveryHop_def buildEdges_def addEdge_def gomap_index_def mkLog_def
  prependString_def math_Max_def fl_of_int_def roundRatio_def binary64_def emin_def
  bitLen.simps Let_def scaled_def

lemma buildEdges_ex_chain_paths:
  "buildPathsForSenderID rev 4 ''A'' (buildEdges ex_chain) = Some []"
  by (simp add: ex_chain_def paths_eval eval_nat_numeral)

theorem acyclic_no_paths_witness:
  "range_order (rev :: (string, MessageLog) gomap \<Rightarrow> (string, MessageLog) gomap) \<and>
   acyclic (edge_rel (buildEdges ex_chain)) \<and> ex_chain \<noteq> [] \<and> acyclic (forwarding ex_chain) \<and>
   buildPathsForSenderID rev 4 ''A'' (buildEdges ex_chain) = Some [] \<and>
   (\<exists>d. \<forall>d' \<ge> d. calcLastDeliveryHop rev d' ex_chain = Some (Inr 0))"
proof -
  have r: "range_order (rev :: (string, MessageLog) gomap \<Rightarrow> (string, MessageLog) gomap)"
    by (rule range_order_rev)
  note t = acyclic_no_paths [OF r, of "''A''" "buildEdges ex_chain" ex_chain]
  have ne: "ex_chain \<noteq> []" by (simp add: ex_chain_def)
  have ac: "acyclic (edge_rel (buildEdges ex_chain))"
    by (simp only: edge_rel_buildEdges acyclic_ex_chain)
  from t ne acyclic_ex_chain
  have "\<exists>d. \<forall>d' \<ge> d. calcLastDeliveryHop rev d' ex_chain = Some (Inr 0)" by blast
  with r ac ne acyclic_ex_chain buildEdges_ex_chain_paths show ?thesis by blast
qed

text \<open>
  Claim C5. \<open>buildPathsForSenderID\<close> returns for every edge map whose relation is acyclic.
  Nothing guards against a cycle: when the start node reaches a node that lies on a cycle,
  no depth of nesting is enough, so the function recurses for ever; and it returns exactly
  when the start node reaches no such node.
\<close>

theorem buildPaths_terminates:
  "range_order rng \<Longrightarrow>
   (acyclic (edge_rel m) \<longrightarrow> (\<exists>d. buildPathsForSenderID rng d senderID m \<noteq> None)) \<and>
   ((\<exists>n. (senderID, n) \<in> (edge_rel m)\<^sup>* \<and> (n, n) \<in> (edge_rel m)\<^sup>+) \<longrightarrow>
      (\<forall>d. buildPathsForSenderID rng d senderID m = None)) \<and>
   ((\<exists>d. buildPathsForSenderID rng d senderID m \<noteq> None) =
      (\<forall>n. (senderID, n) \<in> (edge_rel m)\<^sup>* \<longrightarrow> (n, n) \<notin> (edge_rel m)\<^sup>+))"
proof -
  assume r: "range_order rng"
  let ?returns = "\<exists>d. buildPathsForSenderID rng d senderID m \<noteq> None"
  let ?cycle = "\<exists>n. (senderID, n) \<in> (edge_rel m)\<^sup>* \<and> (n, n) \<in> (edge_rel m)\<^sup>+"
  have returns: ?returns if "\<not> ?cycle"
  proof -
    from that have "\<forall>n. (senderID, n) \<in> (edge_rel m)\<^sup>* \<longrightarrow> (n, n) \<notin> (edge_rel m)\<^sup>+"
      by simp
    from buildPaths_returns [OF r this]
    obtain d where "buildPathsForSenderID rng d senderID m = Some []" ..
    then have "buildPathsForSenderID rng d senderID m \<noteq> None" by simp
    then show ?thesis ..
  qed
  have diverges: "\<forall>d. buildPathsForSenderID rng d senderID m = None" if ?cycle
  proof
    fix d
    from that obtain n where "(senderID, n) \<in> (edge_rel m)\<^sup>*" "(n, n) \<in> (edge_rel m)\<^sup>+"
      by auto
    then show "buildPathsForSenderID rng d senderID m = None"
      by (rule buildPaths_diverges [OF r])
  qed
  have one: "acyclic (edge_rel m) \<longrightarrow> ?returns"
  proof
    assume "acyclic (edge_rel m)"
    then have "\<not> ?cycle" by (simp add: acyclic_def)
    then show ?returns by (rule returns)
  qed
  have two: "?cycle \<longrightarrow> (\<forall>d. buildPathsForSenderID rng d senderID m = None)"
    using diverges by (rule impI)
  have "?returns = (\<not> ?cycle)"
  proof
    assume ret: ?returns
    show "\<not> ?cycle"
    proof
      assume ?cycle
      then have "\<forall>d. buildPathsForSenderID rng d senderID m = None" by (rule diverges)
      with ret show False by simp
    qed
  next
    assume "\<not> ?cycle"
    then show ?returns by (rule returns)
  qed
  then have three: "?returns =
      (\<forall>n. (senderID, n) \<in> (edge_rel m)\<^sup>* \<longrightarrow> (n, n) \<notin> (edge_rel m)\<^sup>+)"
    by simp
  show ?thesis
    by (rule conjI [OF one conjI [OF two three]])
qed

lemma forwarding_ex_cycle: "forwarding ex_cycle = {(''A'', ''B''), (''B'', ''A'')}"
  by (simp add: forwarding_def ex_cycle_def mkLog_def)

lemma cycle_ex_cycle: "(''A'', ''A'') \<in> (edge_rel (buildEdges ex_cycle))\<^sup>+"
proof -
  have "(''A'', ''B'') \<in> forwarding ex_cycle" "(''B'', ''A'') \<in> forwarding ex_cycle"
    by (simp_all add: forwarding_ex_cycle)
  then have "(''A'', ''A'') \<in> (forwarding ex_cycle)\<^sup>+"
    by (rule trancl_trans [OF r_into_trancl' r_into_trancl'])
  then show ?thesis by (simp only: edge_rel_buildEdges)
qed

theorem buildPaths_terminates_witness:
  "range_order (rev :: (string, MessageLog) gomap \<Rightarrow> (string, MessageLog) gomap) \<and>
   acyclic (edge_rel (buildEdges ex_chain)) \<and>
   (\<exists>d. buildPathsForSenderID rev d ''A'' (buildEdges ex_chain) \<noteq> None) \<and>
   (''A'', ''A'') \<in> (edge_rel (buildEdges ex_cycle))\<^sup>* \<and>
   (''A'', ''A'') \<in> (edge_rel (buildEdges ex_cycle))\<^sup>+ \<and>
   (\<forall>d. buildPathsForSenderID rev d ''A'' (buildEdges ex_cycle) = None)"
proof -
  have r: "range_order (rev :: (string, MessageLog) gomap \<Rightarrow> (string, MessageLog) gomap)"
    by (rule range_order_rev)
  note chain = buildPaths_terminates [OF r, of "buildEdges ex_chain" "''A''"]
  note cycle = buildPaths_terminates [OF r, of "buildEdges ex_cycle" "''A''"]
  have ac: "acyclic (edge_rel (buildEdges ex_chain))"
    by (simp only: edge_rel_buildEdges acyclic_ex_chain)
  with chain have one: "\<exists>d. buildPathsForSenderID rev d ''A'' (buildEdges ex_chain) \<noteq> None"
    by blast
  have refl: "(''A'', ''A'') \<in> (edge_rel (buildEdges ex_cycle))\<^sup>*" by simp
  with cycle cycle_ex_cycle
  have two: "\<forall>d. buildPathsForSenderID rev d ''A'' (buildEdges ex_cycle) = None"
    by blast
  from r ac one refl cycle_ex_cycle two show ?thesis by blast
qed

section \<open>The chain of three hops\<close>

lemma sorted_ex_chain: "sorter_By_Sort unixNanoTimestamp ex_chain = ex_chain"
  by (simp add: ex_chain_def mkLog_def sorter_By_Sort_def unixNanoTimestamp_def)

text \<open>
  Claim C1, on the code: the records of the chain \<open>A \<rightarrow> B \<rightarrow> C \<rightarrow> D\<close> are in the order
  that the sort leaves them in, \<open>calcLastDeliveryHop\<close> returns 0 on them, and it returns 3
  for no order of the recipients and no depth.
\<close>

theorem chain_lastDeliveryHop:
  "sortMessageLogs [ex_chain] = [ex_chain] \<and>
   calcLastDeliveryHop id 4 ex_chain = Some (Inr 0) \<and>
   (\<forall>rng d. calcLastDeliveryHop rng d ex_chain \<noteq> Some (Inr 3))"
proof -
  have ne: "ex_chain \<noteq> []" by (simp add: ex_chain_def)
  have "buildPathsForSenderID id 4 ''A'' (buildEdges ex_chain) = Some []"
    by (simp add: ex_chain_def paths_eval eval_nat_numeral)
  moreover have "SenderID (ex_chain ! 0) = ''A''"
    by (simp add: ex_chain_def mkLog_def)
  ultimately have "calcLastDeliveryHop id 4 ex_chain = Some (Inr 0)"
    by (simp add: calcLastDeliveryHop_result [OF ne])
  moreover have "\<forall>rng d. calcLastDeliveryHop rng d ex_chain \<noteq> Some (Inr 3)"
    by (simp add: calcLastDeliveryHop_result [OF ne])
  ultimately show ?thesis by (simp add: sortMessageLogs_def sorted_ex_chain)
qed

section \<open>Relative message redundancy\<close>

lemma addHosts_keys:
  "fst ` set (addHosts m msg) = insert (HostID msg) (insert (SenderID msg) (fst ` set m))"
  by (auto simp: addHosts_def key_set_gomap_store)

lemma addHosts_distinct: "distinct (map fst m) \<Longrightarrow> distinct (map fst (addHosts m msg))"
  by (simp add: addHosts_def distinct_gomap_store)

lemma hosts_fold:
  "fst ` set (foldl addHosts m xs) = fst ` set m \<union> HostID ` set xs \<union> SenderID ` set xs"
  by (induction xs arbitrary: m) (auto simp: addHosts_keys)

lemma hosts_fold_distinct:
  "distinct (map fst m) \<Longrightarrow> distinct (map fst (foldl addHosts m xs))"
  by (induction xs arbitrary: m) (auto simp: addHosts_distinct)

lemma countUniqueHosts_card:
  "countUniqueHosts xs = card (HostID ` set xs \<union> SenderID ` set xs)"
proof -
  let ?m = "foldl addHosts [] xs"
  have "distinct (map fst ?m)" by (rule hosts_fold_distinct) simp
  then have "card (set (map fst ?m)) = length (map fst ?m)" by (rule distinct_card)
  moreover have "set (map fst ?m) = HostID ` set xs \<union> SenderID ` set xs"
    using hosts_fold [of "[]" xs] by simp
  ultimately show ?thesis by (simp add: countUniqueHosts_def)
qed

lemma countUniqueHosts_pos: "xs \<noteq> [] \<Longrightarrow> 0 < countUniqueHosts xs"
  by (cases xs) (auto simp: countUniqueHosts_card card_gt_0_iff)

lemma countUniqueHosts_le: "countUniqueHosts xs \<le> 2 * length xs"
proof -
  have "card (HostID ` set xs) \<le> length xs" "card (SenderID ` set xs) \<le> length xs"
    by (meson card_image_le card_length le_trans List.finite_set)+
  moreover have "card (HostID ` set xs \<union> SenderID ` set xs) \<le>
      card (HostID ` set xs) + card (SenderID ` set xs)"
    by (rule card_Un_le)
  ultimately show ?thesis by (simp add: countUniqueHosts_card)
qed

lemma calcRMR_nonempty:
  "xs \<noteq> [] \<Longrightarrow> \<exists>rmr. calcRMR xs = Inr rmr"
  using countUniqueHosts_pos [of xs] by (simp add: calcRMR_def Let_def)

lemma uint_sub_one: "1 \<le> u \<Longrightarrow> u \<le> 2 ^ 64 \<Longrightarrow> uint_sub u 1 = u - 1"
proof -
  assume u: "1 \<le> u" "u \<le> 2 ^ 64"
  have "u + 2 ^ 64 - 1 = (u - 1) + 1 * 2 ^ 64" using u by simp
  then have "(u + 2 ^ 64 - 1) mod 2 ^ 64 = (u - 1) mod 2 ^ 64"
    by (simp only: mod_mult_self1)
  also have "\<dots> = u - 1" using u by simp
  finally show ?thesis by (simp add: uint_sub_def)
qed

lemmas float_eval =
  fl_of_int_def roundRatio_def binary32_def binary64_def emin_def bitLen.simps Let_def
  fl_sub_def scaled_def uint_sub_def

text \<open>
  Claim C8. For a group with at least two unique hosts (and with fewer than \<open>2 ^ 63\<close>
  records, as every Go slice has), \<open>countUniqueHosts\<close> is the number of distinct
  identifiers among the \<open>HostID\<close>s and \<open>SenderID\<close>s, and \<open>calcRMR\<close> returns, without an
  error, the \<open>float32\<close> difference of the \<open>float32\<close> quotient of the record count by
  the number of unique hosts less one, and \<open>1.0\<close>. With four records and three unique
  hosts the result is the \<open>float32\<close> \<open>8388608 * 2\<^sup>-\<^sup>2\<^sup>3\<close>, which is exactly 1.
\<close>

theorem calcRMR_value:
  "length sortedMessageLogs < 2 ^ 63 \<Longrightarrow> 2 \<le> countUniqueHosts sortedMessageLogs \<Longrightarrow>
   countUniqueHosts sortedMessageLogs =
     card (HostID ` set sortedMessageLogs \<union> SenderID ` set sortedMessageLogs) \<and>
   calcRMR sortedMessageLogs =
     Inr (fl_sub binary32
            (fl_div binary32
               (fl_of_int binary32 (int (length sortedMessageLogs)))
               (fl_of_int binary32 (int (countUniqueHosts sortedMessageLogs) - 1)))
            (fl_of_int binary32 1)) \<and>
   (length sortedMessageLogs = 4 \<and> countUniqueHosts sortedMessageLogs = 3 \<longrightarrow>
      calcRMR sortedMessageLogs = Inr (Finite False 8388608 (- 23)) \<and>
      valof (Finite False 8388608 (- 23)) = 1)"
proof -
  assume len: "length sortedMessageLogs < 2 ^ 63" and two: "2 \<le> countUniqueHosts sortedMessageLogs"
  let ?u = "countUniqueHosts sortedMessageLogs"
  have "?u \<le> 2 * length sortedMessageLogs" by (rule countUniqueHosts_le)
  with len have le: "?u \<le> 2 ^ 64" by simp
  have "1 \<le> ?u" using two by simp
  then have sub: "uint_sub ?u 1 = ?u - 1" using le by (rule uint_sub_one)
  have "int (?u - 1) = int ?u - 1" using two by simp
  with sub two have rmr: "calcRMR sortedMessageLogs =
     Inr (fl_sub binary32
            (fl_div binary32
               (fl_of_int binary32 (int (length sortedMessageLogs)))
               (fl_of_int binary32 (int ?u - 1)))
            (fl_of_int binary32 1))"
    by (simp add: calcRMR_def Let_def)
  have four: "calcRMR sortedMessageLogs = Inr (Finite False 8388608 (- 23))"
    if "length sortedMessageLogs = 4" "?u = 3"
    by (simp only: rmr that) (simp add: float_eval)
  have one: "valof (Finite False 8388608 (- 23)) = 1" by simp
  from rmr four one countUniqueHosts_card [of sortedMessageLogs] show ?thesis by blast
qed

theorem calcRMR_value_witness:
  "length ex_four < 2 ^ 63 \<and> length ex_four = 4 \<and> countUniqueHosts ex_four = 3 \<and>
   calcRMR ex_four = Inr (Finite False 8388608 (- 23)) \<and>
   valof (Finite False 8388608 (- 23)) = 1"
proof -
  have len: "length ex_four = 4" by (simp add: ex_four_def)
  have u: "countUniqueHosts ex_four = 3"
    by (simp add: ex_four_def mkLog_def countUniqueHosts_def addHosts_def)
  have small: "length ex_four < 2 ^ 63" by (simp add: len)
  have two: "2 \<le> countUniqueHosts ex_four" by (simp add: u)
  from calcRMR_value [OF small two] small len u show ?thesis by blast
qed

text \<open>
  Claim C3, on the code: for the group of one record whose host is its own sender, the
  number of unique hosts is 1 and \<open>calcRMR\<close> returns no error but the \<open>float32\<close>
  positive infinity, from the division by \<open>float32(0)\<close>.
\<close>

theorem calcRMR_one_host:
  "ex_self \<noteq> [] \<and> countUniqueHosts ex_self = 1 \<and> calcRMR ex_self = Inr (Infinity False)"
  by (simp add: ex_self_def mkLog_def countUniqueHosts_def addHosts_def calcRMR_def float_eval)

section \<open>The pipeline and the order of map iteration\<close>

lemma buildPaths_order:
  assumes r: "range_order rng" and r': "range_order rng'"
  shows "buildPathsForSenderID rng d senderID m = buildPathsForSenderID rng' d senderID m"
proof (induction d arbitrary: senderID)
  case 0
  show ?case by simp
next
  case (Suc d)
  have sets: "set (rng (gomap_index m senderID)) = set (rng' (gomap_index m senderID))"
    using range_order_set [OF r] range_order_set [OF r'] by simp
  have "(buildPathsForSenderID rng (Suc d) senderID m = Some []) =
        (buildPathsForSenderID rng' (Suc d) senderID m = Some [])"
    by (simp only: buildPaths_Suc_iff sets Suc)
  then show ?case
    using buildPaths_None_iff [of rng "Suc d" senderID m]
      buildPaths_None_iff [of rng' "Suc d" senderID m]
    by (cases "buildPathsForSenderID rng (Suc d) senderID m";
        cases "buildPathsForSenderID rng' (Suc d) senderID m") auto
qed

lemma metric_order:
  assumes r: "range_order rng" and r': "range_order rng'"
  shows "buildMetricsFromSortedMessageLogs rng d g = buildMetricsFromSortedMessageLogs rng' d g"
proof -
  have hop: "calcLastDeliveryHop rng d g = calcLastDeliveryHop rng' d g"
    by (simp add: calcLastDeliveryHop_def buildPaths_order [OF r r'])
  show ?thesis by (simp only: buildMetricsFromSortedMessageLogs_def hop)
qed

lemma metric_no_error:
  "g \<noteq> [] \<Longrightarrow> buildMetricsFromSortedMessageLogs rng d g \<noteq> Some (Inl e)"
proof -
  assume ne: "g \<noteq> []"
  obtain rmr where rmr: "calcRMR g = Inr rmr" using calcRMR_nonempty [OF ne] by blast
  have total: "\<exists>t. calcTotalNanoTime g = Inr t" using ne by (simp add: calcTotalNanoTime_def)
  then obtain t where t: "calcTotalNanoTime g = Inr t" by blast
  show ?thesis
    using ne rmr t calcLastDeliveryHop_result [OF ne, of rng d]
    by (simp add: buildMetricsFromSortedMessageLogs_def)
qed

lemma metricsLoop_result:
  "\<forall>g \<in> set groups. g \<noteq> [] \<Longrightarrow>
   metricsLoop rng d metrics groups =
     (if \<exists>g \<in> set groups. buildMetricsFromSortedMessageLogs rng d g = None then None
      else Some (Inr (metrics @ map (metricOf rng d) groups)))"
proof (induction groups arbitrary: metrics)
  case Nil
  show ?case by simp
next
  case (Cons g groups)
  have ne: "g \<noteq> []" using Cons.prems by simp
  have rest: "\<forall>g \<in> set groups. g \<noteq> []" using Cons.prems by simp
  show ?case
  proof (cases "buildMetricsFromSortedMessageLogs rng d g")
    case None
    then show ?thesis by simp
  next
    case (Some res)
    show ?thesis
    proof (cases res)
      case (Inl e)
      with Some metric_no_error [OF ne, of rng d e] show ?thesis by simp
    next
      case (Inr metric)
      with Some have "metricOf rng d g = metric" by (simp add: metricOf_def)
      with Some Inr Cons.IH [OF rest] show ?thesis by simp
    qed
  qed
qed

lemma metricsLoop_order:
  assumes r: "range_order rng" and r': "range_order rng'"
    and ne: "\<forall>g \<in> set groups. g \<noteq> []" and perm: "mset groups' = mset groups"
  shows "unordered (metricsLoop rng d [] groups) = unordered (metricsLoop rng' d [] groups')"
proof -
  have sets: "set groups' = set groups" using perm by (metis set_mset_mset)
  then have ne': "\<forall>g \<in> set groups'. g \<noteq> []" using ne by simp
  have same: "buildMetricsFromSortedMessageLogs rng' d = buildMetricsFromSortedMessageLogs rng d"
    using metric_order [OF r' r] by blast
  then have same': "metricOf rng' d = metricOf rng d"
    by (simp add: metricOf_def fun_eq_iff)
  have "mset (map (metricOf rng d) groups') = mset (map (metricOf rng d) groups)"
    using perm by simp
  then show ?thesis
    by (simp add: metricsLoop_result [OF ne] metricsLoop_result [OF ne'] same same' sets
        unordered_def)
qed

lemma groups_nonempty:
  "range_order rng \<Longrightarrow> \<forall>g \<in> set (sortMessageLogs (groupMessageLogsByID rng messageLogs)). g \<noteq> []"
proof -
  assume r: "range_order rng"
  have "\<forall>g \<in> set (groupMessageLogsByID rng messageLogs). g \<noteq> []"
  proof
    fix g assume "g \<in> set (groupMessageLogsByID rng messageLogs)"
    then obtain k where "(k, g) \<in> set (rng (messageLogMapOf messageLogs))"
      by (auto simp: groupMessageLogsByID_eq)
    then have "(k, g) \<in> set (messageLogMapOf messageLogs)"
      using range_order_set [OF r] by simp
    then show "g \<noteq> []" using entry_messageLogMapOf by blast
  qed
  then show ?thesis by (simp add: sortMessageLogs_def sorter_By_Sort_Nil_iff)
qed

lemma groups_perm:
  assumes r: "range_order rng" and r': "range_order rng'"
  shows "mset (sortMessageLogs (groupMessageLogsByID rng' messageLogs)) =
         mset (sortMessageLogs (groupMessageLogsByID rng messageLogs))"
proof -
  have "mset (rng' (messageLogMapOf messageLogs)) = mset (rng (messageLogMapOf messageLogs))"
    using r r' by (simp add: range_order_def)
  then show ?thesis
    by (simp add: sortMessageLogs_def groupMessageLogsByID_eq)
qed

text \<open>
  Claim C4, as amended. For a fixed sequence of records, two runs of the pipeline that
  visit the maps in any two orders agree up to the order of the metrics: either neither
  returns (both exceed the depth), or both return the same metrics as multisets. No run
  returns an error. The order of the output follows the order in which the map of
  \<open>groupMessageLogsByID\<close> is ranged over.
\<close>

theorem pipeline_same_metrics:
  "range_order rngG \<Longrightarrow> range_order rngG' \<Longrightarrow> range_order rngE \<Longrightarrow> range_order rngE' \<Longrightarrow>
   unordered (buildMetricsFromMessageLogs rngG rngE depth messageLogs) =
   unordered (buildMetricsFromMessageLogs rngG' rngE' depth messageLogs) \<and>
   (\<forall>e. buildMetricsFromMessageLogs rngG rngE depth messageLogs \<noteq> Some (Inl e))"
proof -
  assume g: "range_order rngG" and g': "range_order rngG'"
    and e: "range_order rngE" and e': "range_order rngE'"
  let ?groups = "sortMessageLogs (groupMessageLogsByID rngG messageLogs)"
  have ne: "\<forall>g \<in> set ?groups. g \<noteq> []" by (rule groups_nonempty [OF g])
  have one: "unordered (buildMetricsFromMessageLogs rngG rngE depth messageLogs) =
      unordered (buildMetricsFromMessageLogs rngG' rngE' depth messageLogs)"
    unfolding buildMetricsFromMessageLogs_def buildMetricsFromSortedMessageLogsGroups_def
    by (rule metricsLoop_order [OF e e' ne groups_perm [OF g g']])
  have two: "\<forall>e. buildMetricsFromMessageLogs rngG rngE depth messageLogs \<noteq> Some (Inl e)"
    by (simp add: buildMetricsFromMessageLogs_def buildMetricsFromSortedMessageLogsGroups_def
        metricsLoop_result [OF ne])
  from one two show ?thesis ..
qed

lemma groups_ex_logs_id:
  "sortMessageLogs (groupMessageLogsByID id ex_logs) =
     [[mkLog ''h2'' ''h1'' ''m1'' 1000, mkLog ''h3'' ''h1'' ''m1'' 1005],
      [mkLog ''h5'' ''h4'' ''m2'' 300]]"
  by (simp add: ex_logs_def mkLog_def sortMessageLogs_def sorter_By_Sort_def unixNanoTimestamp_def
      groupMessageLogsByID_def messageLogMapOf_def appendToGroup_def gomap_index_def)

lemma groups_ex_logs_rev:
  "sortMessageLogs (groupMessageLogsByID rev ex_logs) =
     [[mkLog ''h5'' ''h4'' ''m2'' 300],
      [mkLog ''h2'' ''h1'' ''m1'' 1000, mkLog ''h3'' ''h1'' ''m1'' 1005]]"
  by (simp add: ex_logs_def mkLog_def sortMessageLogs_def sorter_By_Sort_def unixNanoTimestamp_def
      groupMessageLogsByID_def messageLogMapOf_def appendToGroup_def gomap_index_def)

lemma rmr_m1:
  "calcRMR [mkLog ''h2'' ''h1'' ''m1'' 1000, mkLog ''h3'' ''h1'' ''m1'' 1005] = Inr (Finite False 0 0)"
  by (simp add: mkLog_def countUniqueHosts_def addHosts_def calcRMR_def float_eval)

lemma rmr_m2: "calcRMR [mkLog ''h5'' ''h4'' ''m2'' 300] = Inr (Finite False 0 0)"
  by (simp add: mkLog_def countUniqueHosts_def addHosts_def calcRMR_def float_eval)

lemma total_m1:
  "calcTotalNanoTime [mkLog ''h2'' ''h1'' ''m1'' 1000, mkLog ''h3'' ''h1'' ''m1'' 1005] = Inr 5"
  by (simp add: mkLog_def calcTotalNanoTime_def)

lemma total_m2: "calcTotalNanoTime [mkLog ''h5'' ''h4'' ''m2'' 300] = Inr 0"
  by (simp add: mkLog_def calcTotalNanoTime_def)

lemma paths_m1:
  "buildPathsForSenderID id (Suc (Suc 0)) ''h1''
     (buildEdges [mkLog ''h2'' ''h1'' ''m1'' 1000, mkLog ''h3'' ''h1'' ''m1'' 1005]) = Some []"
  "buildPathsForSenderID rev (Suc (Suc 0)) ''h1''
     (buildEdges [mkLog ''h2'' ''h1'' ''m1'' 1000, mkLog ''h3'' ''h1'' ''m1'' 1005]) = Some []"
  by (simp_all add: buildEdges_def addEdge_def gomap_index_def mkLog_def)

lemma paths_m2:
  "buildPathsForSenderID id (Suc (Suc 0)) ''h4'' (buildEdges [mkLog ''h5'' ''h4'' ''m2'' 300]) = Some []"
  "buildPathsForSenderID rev (Suc (Suc 0)) ''h4'' (buildEdges [mkLog ''h5'' ''h4'' ''m2'' 300]) = Some []"
  by (simp_all add: buildEdges_def addEdge_def gomap_index_def mkLog_def)

lemma sender_m1:
  "SenderID ([mkLog ''h2'' ''h1'' ''m1'' 1000, mkLog ''h3'' ''h1'' ''m1'' 1005] ! 0) = ''h1''"
  "SenderID ([mkLog ''h5'' ''h4'' ''m2'' 300] ! 0) = ''h4''"
  by (simp_all add: mkLog_def)

lemma hop_m1:
  "calcLastDeliveryHop id (Suc (Suc 0))
     [mkLog ''h2'' ''h1'' ''m1'' 1000, mkLog ''h3'' ''h1'' ''m1'' 1005] = Some (Inr 0)"
  "calcLastDeliveryHop rev (Suc (Suc 0))
     [mkLog ''h2'' ''h1'' ''m1'' 1000, mkLog ''h3'' ''h1'' ''m1'' 1005] = Some (Inr 0)"
  by (simp_all only: calcLastDeliveryHop_result [OF list.distinct(2)] sender_m1 paths_m1) simp_all

lemma hop_m2:
  "calcLastDeliveryHop id (Suc (Suc 0)) [mkLog ''h5'' ''h4'' ''m2'' 300] = Some (Inr 0)"
  "calcLastDeliveryHop rev (Suc (Suc 0)) [mkLog ''h5'' ''h4'' ''m2'' 300] = Some (Inr 0)"
  by (simp_all only: calcLastDeliveryHop_result [OF list.distinct(2)] sender_m1 paths_m2) simp_all

lemma metric_m1:
  "buildMetricsFromSortedMessageLogs id (Suc (Suc 0))
     [mkLog ''h2'' ''h1'' ''m1'' 1000, mkLog ''h3'' ''h1'' ''m1'' 1005] = Some (Inr (ex_metric 5))"
  "buildMetricsFromSortedMessageLogs rev (Suc (Suc 0))
     [mkLog ''h2'' ''h1'' ''m1'' 1000, mkLog ''h3'' ''h1'' ''m1'' 1005] = Some (Inr (ex_metric 5))"
  by (simp_all add: buildMetricsFromSortedMessageLogs_def total_m1 rmr_m1 hop_m1 ex_metric_def)

lemma metric_m2:
  "buildMetricsFromSortedMessageLogs id (Suc (Suc 0)) [mkLog ''h5'' ''h4'' ''m2'' 300] =
     Some (Inr (ex_metric 0))"
  "buildMetricsFromSortedMessageLogs rev (Suc (Suc 0)) [mkLog ''h5'' ''h4'' ''m2'' 300] =
     Some (Inr (ex_metric 0))"
  by (simp_all add: buildMetricsFromSortedMessageLogs_def total_m2 rmr_m2 hop_m2 ex_metric_def)

lemma pipeline_ex_logs_id:
  "buildMetricsFromMessageLogs id id 2 ex_logs = Some (Inr [ex_metric 5, ex_metric 0])"
  by (simp add: buildMetricsFromMessageLogs_def buildMetricsFromSortedMessageLogsGroups_def
      groups_ex_logs_id numeral_2_eq_2 metric_m1 metric_m2)

lemma pipeline_ex_logs_rev:
  "buildMetricsFromMessageLogs rev rev 2 ex_logs = Some (Inr [ex_metric 0, ex_metric 5])"
  by (simp add: buildMetricsFromMessageLogs_def buildMetricsFromSortedMessageLogsGroups_def
      groups_ex_logs_rev numeral_2_eq_2 metric_m1 metric_m2)

text \<open>
  Claim C4 as stated fails: on the records \<open>ex_logs\<close> of two messages, a run that ranges
  over the map of groups in one order and a run that ranges over it in the reverse order
  return the two metrics in different orders.
\<close>

theorem pipeline_order_counterexample:
  "range_order (id :: (string, MessageLog list) gomap \<Rightarrow> (string, MessageLog list) gomap) \<and>
   range_order (rev :: (string, MessageLog list) gomap \<Rightarrow> (string, MessageLog list) gomap) \<and>
   range_order (id :: (string, MessageLog) gomap \<Rightarrow> (string, MessageLog) gomap) \<and>
   range_order (rev :: (string, MessageLog) gomap \<Rightarrow> (string, MessageLog) gomap) \<and>
   buildMetricsFromMessageLogs id id 2 ex_logs = Some (Inr [ex_metric 5, ex_metric 0]) \<and>
   buildMetricsFromMessageLogs rev rev 2 ex_logs = Some (Inr [ex_metric 0, ex_metric 5]) \<and>
   buildMetricsFromMessageLogs id id 2 ex_logs \<noteq> buildMetricsFromMessageLogs rev rev 2 ex_logs"
  by (simp add: pipeline_ex_logs_id pipeline_ex_logs_rev range_order_def ex_metric_def)

theorem pipeline_same_metrics_witness:
  "range_order (id :: (string, MessageLog list) gomap \<Rightarrow> (string, MessageLog list) gomap) \<and>
   range_order (rev :: (string, MessageLog list) gomap \<Rightarrow> (string, MessageLog list) gomap) \<and>
   range_order (id :: (string, MessageLog) gomap \<Rightarrow> (string, MessageLog) gomap) \<and>
   range_order (rev :: (string, MessageLog) gomap \<Rightarrow> (string, MessageLog) gomap) \<and>
   unordered (buildMetricsFromMessageLogs id id 2 ex_logs) =
     unordered (buildMetricsFromMessageLogs rev rev 2 ex_logs) \<and>
   unordered (buildMetricsFromMessageLogs id id 2 ex_logs) =
     Some (Inr {#ex_metric 5, ex_metric 0#})"
proof -
  have gi: "range_order (id :: (string, MessageLog list) gomap \<Rightarrow> (string, MessageLog list) gomap)"
    and gr: "range_order (rev :: (string, MessageLog list) gomap \<Rightarrow> (string, MessageLog list) gomap)"
    and ei: "range_order (id :: (string, MessageLog) gomap \<Rightarrow> (string, MessageLog) gomap)"
    and er: "range_order (rev :: (string, MessageLog) gomap \<Rightarrow> (string, MessageLog) gomap)"
    by (simp_all add: range_order_def)
  note same = pipeline_same_metrics [OF gi gr ei er, of 2 ex_logs]
  have "unordered (buildMetricsFromMessageLogs id id 2 ex_logs) =
      Some (Inr {#ex_metric 5, ex_metric 0#})"
    by (simp add: pipeline_ex_logs_id unordered_def)
  with same gi gr ei er show ?thesis by blast
qed

section \<open>The end-to-end scenario\<close>

lemma sorted_ex_group:
  "sorter_By_Sort unixNanoTimestamp ex_group =
     [mkLog ''h1'' ''h1'' ''m1'' 500, mkLog ''h2'' ''h1'' ''m1'' 1000,
      mkLog ''h3'' ''h2'' ''m1'' 2000]"
  by (simp add: ex_group_def mkLog_def sorter_By_Sort_def unixNanoTimestamp_def)

lemma map_ex_group: "messageLogMapOf ex_group = [(''m1'', ex_group)]"
  by (simp add: ex_group_def mkLog_def messageLogMapOf_def appendToGroup_def gomap_index_def)

text \<open>
  The three records of the end-to-end scenario of the specification hold the record of
  \<open>h1\<close> receiving the message from itself, the earliest one. Its sender is the start
  node and lies on a cycle, so \<open>calcLastDeliveryHop\<close> never returns on the sorted group,
  and neither does the pipeline on the three records, for any order of map iteration.
\<close>

lemma scenario_never_returns:
  "range_order rngG \<Longrightarrow> range_order rngE \<Longrightarrow>
   sortMessageLogs (groupMessageLogsByID rngG ex_group) =
     [[mkLog ''h1'' ''h1'' ''m1'' 500, mkLog ''h2'' ''h1'' ''m1'' 1000,
       mkLog ''h3'' ''h2'' ''m1'' 2000]] \<and>
   calcLastDeliveryHop rngE depth
     [mkLog ''h1'' ''h1'' ''m1'' 500, mkLog ''h2'' ''h1'' ''m1'' 1000,
      mkLog ''h3'' ''h2'' ''m1'' 2000] = None \<and>
   buildMetricsFromMessageLogs rngG rngE depth ex_group = None"
proof -
  assume rg: "range_order rngG" and r: "range_order rngE"
  let ?g = "[mkLog ''h1'' ''h1'' ''m1'' 500, mkLog ''h2'' ''h1'' ''m1'' 1000,
      mkLog ''h3'' ''h2'' ''m1'' 2000]"
  have "mset (rngG [(''m1'', ex_group)]) = {#(''m1'', ex_group)#}"
    using rg by (simp add: range_order_def)
  then have "rngG [(''m1'', ex_group)] = [(''m1'', ex_group)]" by simp
  then have groups: "sortMessageLogs (groupMessageLogsByID rngG ex_group) = [?g]"
    by (simp add: groupMessageLogsByID_eq map_ex_group sortMessageLogs_def sorted_ex_group)
  have ne: "?g \<noteq> []" by simp
  have first: "SenderID (?g ! 0) = ''h1''" by (simp add: mkLog_def)
  have "(''h1'', ''h1'') \<in> forwarding ?g"
    by (simp add: forwarding_def mkLog_def)
  then have loop: "(''h1'', ''h1'') \<in> (edge_rel (buildEdges ?g))\<^sup>+"
    by (simp only: edge_rel_buildEdges r_into_trancl')
  have "(''h1'', ''h1'') \<in> (edge_rel (buildEdges ?g))\<^sup>*" by simp
  then have "buildPathsForSenderID rngE depth ''h1'' (buildEdges ?g) = None"
    using loop by (rule buildPaths_diverges [OF r])
  then have hop: "calcLastDeliveryHop rngE depth ?g = None"
    by (simp only: calcLastDeliveryHop_result [OF ne] first) simp
  obtain rmr where rmr: "calcRMR ?g = Inr rmr" using calcRMR_nonempty [OF ne] by blast
  have total: "calcTotalNanoTime ?g = Inr 1500" by (simp add: calcTotalNanoTime_def mkLog_def)
  have "buildMetricsFromSortedMessageLogs rngE depth ?g = None"
    by (simp add: buildMetricsFromSortedMessageLogs_def total rmr hop)
  then have "buildMetricsFromMessageLogs rngG rngE depth ex_group = None"
    by (simp only: buildMetricsFromMessageLogs_def buildMetricsFromSortedMessageLogsGroups_def
        groups) simp
  with groups hop show ?thesis by blast
qed

end
